theory Spec2Isabelle
  imports Main
begin

section \<open>Data model of BaconScore.c\<close>

text \<open>
  The C program keeps two global linked lists, \<open>headActors\<close> and \<open>headMovies\<close>, whose
  nodes point at each other: an \<open>actorNode\<close> owns a \<open>movieList\<close> of pointers to
  \<open>movieNode\<close>s and a \<open>movieNode\<close> owns an \<open>actorsInMovie\<close> list of pointers to
  \<open>actorNode\<close>s. A pointer to an \<open>actorNode\<close> is modelled by the position of the node
  in \<open>headActors\<close> (nodes are only ever appended at the tail, so the position never
  changes), a pointer to a \<open>movieNode\<close> by its position in \<open>movieHeap\<close>, the list of all
  movie nodes in the order of their \<open>malloc\<close>. Pointer equality is equality of positions.
  The \<open>next\<close> fields are the list structure itself. The flag \<open>visited\<close> only ever holds
  0 or 1 and is a \<open>bool\<close>. \<open>level\<close> is the C \<open>int\<close>, read as a mathematical integer:
  the only arithmetic on it is \<open>a->level + 1\<close> in \<open>BFS\<close>, and that sum stays below the
  number of actors of the store (lemma \<open>level_increment_bounded\<close> below), so it is the
  machine's sum for every store of fewer than \<open>2^31\<close> actors. Strings are the bytes before
  the terminator; \<open>malloc\<close> and \<open>strdup\<close> are taken to succeed (the program exits when
  \<open>malloc\<close> fails).
\<close>

record actorNode =
  actorName :: string
  movies :: "nat list"
  visited :: bool
  level :: int

record movieNode =
  movieName :: string
  actors :: "nat list"

record store =
  headActors :: "actorNode list"
  movieHeap :: "movieNode list"
  headMovies :: "nat list"

datatype error =
    NullActor     \<comment> \<open>\<open>actor->movies\<close> with \<open>actor == NULL\<close>: \<open>findActor\<close> found nothing\<close>
  | NullMovie     \<comment> \<open>\<open>movie->actors\<close> with \<open>movie == NULL\<close>: an actor line before any header\<close>
  | OutOfBounds   \<comment> \<open>\<open>findMovie\<close> moves its pointer past the terminator of the line\<close>

definition empty_store :: store where
  "empty_store = \<lparr>headActors = [], movieHeap = [], headMovies = []\<rparr>"

section \<open>Record parser\<close>

definition newline :: char where
  "newline = CHR 0x0A"

text \<open>\<open>isspace\<close> in the C locale: space, \<open>\t\<close>, \<open>\n\<close>, \<open>\v\<close>, \<open>\f\<close>, \<open>\r\<close>.\<close>

definition isspace :: "char \<Rightarrow> bool" where
  "isspace c = (c \<in> {CHR '' '', CHR 0x09, CHR 0x0A, CHR 0x0B, CHR 0x0C, CHR 0x0D})"

text \<open>
  \<open>getline\<close> hands out the text of a stream one line at a time, each line with its
  terminating newline, the last one possibly without. \<open>getlines\<close> is the sequence of lines
  the loop \<open>while (getline(...) > 0)\<close> sees; the first argument is the line read so far.
\<close>

fun getlines_from :: "string \<Rightarrow> string \<Rightarrow> string list" where
  "getlines_from cur [] = (if cur = [] then [] else [cur])"
| "getlines_from cur (c # cs) =
     (if c = newline then (cur @ [c]) # getlines_from [] cs
      else getlines_from (cur @ [c]) cs)"

definition getlines :: "string \<Rightarrow> string list" where
  "getlines file = getlines_from [] file"

text \<open>
  \<open>if (line[strlen(line) - 1] == '\n') line[strlen(line) - 1] = '\0'\<close>. A line from
  \<open>getline\<close> is never empty, so the read is in bounds.
\<close>

definition chomp :: "string \<Rightarrow> string" where
  "chomp line = (if line \<noteq> [] \<and> last line = newline then butlast line else line)"

fun containsMovie :: "string \<Rightarrow> bool" where
  "containsMovie [] = False"
| "containsMovie (c # cs) = (if c = CHR '':'' then True else containsMovie cs)"

text \<open>
  \<open>findMovie\<close> advances a pointer to the first \<open>':'\<close>, adds 2 and duplicates the string
  from there. With no \<open>':'\<close> in the line, or with the \<open>':'\<close> as its last character, the
  pointer ends up behind the terminator of the line and \<open>strdup\<close> reads out of bounds.
\<close>

definition findMovie :: "string \<Rightarrow> error + string" where
  "findMovie line =
     (let movie = dropWhile (\<lambda>c. c \<noteq> CHR '':'') line
      in if length movie < 2 then Inl OutOfBounds else Inr (drop 2 movie))"

fun findActor :: "actorNode list \<Rightarrow> string \<Rightarrow> nat option" where
  "findActor [] actor = None"
| "findActor (cur # rest) actor =
     (if actorName cur = actor then Some 0
      else map_option Suc (findActor rest actor))"

fun isInLL :: "actorNode list \<Rightarrow> string \<Rightarrow> bool" where
  "isInLL [] actor = False"
| "isInLL (cur # rest) actor = (if actorName cur = actor then True else isInLL rest actor)"

definition addActorNode :: "store \<Rightarrow> actorNode \<Rightarrow> store" where
  "addActorNode s node = s\<lparr>headActors := headActors s @ [node]\<rparr>"

definition addMovieToLL :: "store \<Rightarrow> nat \<Rightarrow> store" where
  "addMovieToLL s node = s\<lparr>headMovies := headMovies s @ [node]\<rparr>"

text \<open>\<open>addMovieToActorsMovies\<close> walks to the tail of the actor's list and links the movie there.\<close>

definition addMovieToActorsMovies :: "store \<Rightarrow> nat \<Rightarrow> nat \<Rightarrow> store" where
  "addMovieToActorsMovies s actor mv =
     s\<lparr>headActors := (headActors s)
          [actor := (headActors s ! actor)\<lparr>movies := movies (headActors s ! actor) @ [mv]\<rparr>]\<rparr>"

text \<open>
  The loop of \<open>addActorToMovie\<close> over a non-empty cast: it runs while
  \<open>curActor->next != NULL\<close>, so the name of the last entry is never compared.
\<close>

fun cast_append :: "actorNode list \<Rightarrow> nat list \<Rightarrow> nat \<Rightarrow> nat list" where
  "cast_append as [] actor = [actor]"
| "cast_append as [curActor] actor = [curActor, actor]"
| "cast_append as (curActor # nxt # rest) actor =
     (if actorName (as ! curActor) = actorName (as ! actor) then curActor # nxt # rest
      else curActor # cast_append as (nxt # rest) actor)"

definition addActorToMovie :: "store \<Rightarrow> nat \<Rightarrow> nat \<Rightarrow> store" where
  "addActorToMovie s mv actor =
     s\<lparr>movieHeap := (movieHeap s)
          [mv := (movieHeap s ! mv)\<lparr>actors :=
                   cast_append (headActors s) (actors (movieHeap s ! mv)) actor\<rparr>]\<rparr>"

text \<open>\<open>isspace(line[0])\<close>; the first character of an empty string is its terminator.\<close>

definition starts_with_space :: "string \<Rightarrow> bool" where
  "starts_with_space line = (case line of [] \<Rightarrow> False | c # _ \<Rightarrow> isspace c)"

text \<open>
  One round of the loop of \<open>parseFile\<close>, on the line \<open>getline\<close> returned. The locals
  \<open>movieTitle\<close> and \<open>movie\<close> travel with the store; \<open>None\<close> is \<open>NULL\<close>.
\<close>

type_synonym pstate = "store \<times> string option \<times> nat option"

definition parse_line :: "pstate \<Rightarrow> string \<Rightarrow> error + pstate" where
  "parse_line st line0 =
     (case st of (s, movieTitle, movie) \<Rightarrow>
       if starts_with_space line0 then Inr st
       else
         let line = chomp line0 in
         if containsMovie line then
           let s1 = (case movie of None \<Rightarrow> s | Some m \<Rightarrow> addMovieToLL s m) in
           (case findMovie line of
              Inl e \<Rightarrow> Inl e
            | Inr title \<Rightarrow>
                Inr (s1\<lparr>movieHeap := movieHeap s1 @ [\<lparr>movieName = title, actors = []\<rparr>]\<rparr>,
                     Some title, Some (length (movieHeap s1))))
         else if isInLL (headActors s) line then
           (case findActor (headActors s) line of
              None \<Rightarrow> Inl NullActor
            | Some actor \<Rightarrow>
               (case movie of
                  None \<Rightarrow> Inl NullMovie
                | Some m \<Rightarrow>
                    Inr (addActorToMovie (addMovieToActorsMovies s actor m) m actor,
                         movieTitle, movie)))
         else
           let actor = length (headActors s);
               s1 = addActorNode s \<lparr>actorName = line, movies = [], visited = False, level = 0\<rparr>
           in (case movie of
                 None \<Rightarrow> Inl NullMovie
               | Some m \<Rightarrow>
                   Inr (addActorToMovie (addMovieToActorsMovies s1 actor m) m actor,
                        movieTitle, movie)))"

fun parse_loop :: "pstate \<Rightarrow> string list \<Rightarrow> error + pstate" where
  "parse_loop st [] = Inr st"
| "parse_loop st (line # rest) =
     (case parse_line st line of Inl e \<Rightarrow> Inl e | Inr st' \<Rightarrow> parse_loop st' rest)"

definition parseFile :: "string \<Rightarrow> error + store" where
  "parseFile file =
     (case parse_loop (empty_store, None, None) (getlines file) of
        Inl e \<Rightarrow> Inl e
      | Inr (s, movieTitle, movie) \<Rightarrow>
          (case movieTitle of
             None \<Rightarrow> Inr s
           | Some _ \<Rightarrow> (case movie of None \<Rightarrow> Inl NullMovie | Some m \<Rightarrow> Inr (addMovieToLL s m))))"

section \<open>Path search engine\<close>

definition enqueue :: "nat list \<Rightarrow> nat \<Rightarrow> nat list" where
  "enqueue q actor = q @ [actor]"

definition set_visited :: "actorNode list \<Rightarrow> nat \<Rightarrow> bool \<Rightarrow> actorNode list" where
  "set_visited as c v = as[c := (as ! c)\<lparr>visited := v\<rparr>]"

definition set_level :: "actorNode list \<Rightarrow> nat \<Rightarrow> int \<Rightarrow> actorNode list" where
  "set_level as c l = as[c := (as ! c)\<lparr>level := l\<rparr>]"

text \<open>The loop that clears \<open>visited\<close> and \<open>level\<close> of every node of \<open>headActors\<close>.\<close>

fun clear_all :: "actorNode list \<Rightarrow> actorNode list" where
  "clear_all [] = []"
| "clear_all (cur # rest) = cur\<lparr>visited := False, level := - 1\<rparr> # clear_all rest"

text \<open>
  The innermost loop of \<open>BFS\<close>, over the cast \<open>co\<close> of one movie of the dequeued actor
  \<open>a\<close>. \<open>Inl\<close> is the \<open>return c->level\<close> inside the loop, with the actors as they are at
  that moment; \<open>Inr\<close> is the state after the loop.
\<close>

fun scan_cast ::
  "nat \<Rightarrow> nat \<Rightarrow> nat list \<Rightarrow> actorNode list \<times> nat list
     \<Rightarrow> (int \<times> actorNode list) + (actorNode list \<times> nat list)" where
  "scan_cast target a [] (as, q) = Inr (as, q)"
| "scan_cast target a (c # co) (as, q) =
     (if \<not> visited (as ! c) then
        let as1 = set_visited as c True;
            as2 = set_level as1 c (level (as1 ! a) + 1)
        in if c = target then Inl (level (as2 ! c), as2)
           else scan_cast target a co (as2, enqueue q c)
      else scan_cast target a co (as, q))"

text \<open>The loop over the movie list \<open>ml\<close> of the dequeued actor.\<close>

fun scan_movies ::
  "movieNode list \<Rightarrow> nat \<Rightarrow> nat \<Rightarrow> nat list \<Rightarrow> actorNode list \<times> nat list
     \<Rightarrow> (int \<times> actorNode list) + (actorNode list \<times> nat list)" where
  "scan_movies mh target a [] st = Inr st"
| "scan_movies mh target a (mv # ml) st =
     (case scan_cast target a (actors (mh ! mv)) st of
        Inl r \<Rightarrow> Inl r
      | Inr st' \<Rightarrow> scan_movies mh target a ml st')"

text \<open>
  The loop \<open>while (q != NULL)\<close>. It is not structurally recursive, so it is a partial
  function: \<open>None\<close> is a loop that runs forever.
\<close>

partial_function (option) bfs_loop ::
  "movieNode list \<Rightarrow> nat \<Rightarrow> actorNode list \<times> nat list \<Rightarrow> (int \<times> actorNode list) option" where
  "bfs_loop mh target st =
     (case snd st of
        [] \<Rightarrow> Some (- 1, fst st)
      | a # q \<Rightarrow>
          (case scan_movies mh target a (movies (fst st ! a)) (fst st, q) of
             Inl r \<Rightarrow> Some r
           | Inr st' \<Rightarrow> bfs_loop mh target st'))"

declare bfs_loop.simps [code]

definition BFS :: "store \<Rightarrow> nat \<Rightarrow> nat \<Rightarrow> (int \<times> store) option" where
  "BFS s start target =
     (if start = target then Some (0, s)
      else
        let as0 = clear_all (headActors s);
            as1 = set_visited as0 start True;
            as2 = set_level as1 start 0;
            q = enqueue [] start
        in case bfs_loop (movieHeap s) target (as2, q) of
             None \<Rightarrow> None
           | Some (r, as') \<Rightarrow> Some (r, s\<lparr>headActors := as'\<rparr>))"

section \<open>Query driver\<close>

text \<open>
  What the loop of \<open>main\<close> writes for one line of standard input:
  \<open>ActorNotFound\<close> is the message "Actor Could Not be Found." on standard error,
  \<open>NoBacon\<close> the line "Score: No Bacon!" and \<open>Score n\<close> the line "Score: n" on standard
  output. The state of the loop is the store and the flag \<open>errSeen\<close>, the exit status.
\<close>

datatype report = ActorNotFound | NoBacon | Score int

definition query :: "store \<times> int \<Rightarrow> string \<Rightarrow> (report \<times> store \<times> int) option" where
  "query st line =
     (case st of (s, errSeen) \<Rightarrow>
       let name = chomp line in
       case findActor (headActors s) name of
         None \<Rightarrow> Some (ActorNotFound, s, 1)
       | Some actor \<Rightarrow>
          (case findActor (headActors s) ''Kevin Bacon'' of
             None \<Rightarrow> Some (NoBacon, s, errSeen)
           | Some bacon \<Rightarrow>
              (case BFS s bacon actor of
                 None \<Rightarrow> None
               | Some (bfs, s') \<Rightarrow>
                   Some (if bfs = - 1 then NoBacon else Score bfs, s', errSeen))))"

fun queries :: "store \<times> int \<Rightarrow> string list \<Rightarrow> (report list \<times> store \<times> int) option" where
  "queries st [] = Some ([], st)"
| "queries st (line # rest) =
     (case query st line of
        None \<Rightarrow> None
      | Some (out, st') \<Rightarrow>
          (case queries st' rest of
             None \<Rightarrow> None
           | Some (outs, st'') \<Rightarrow> Some (out # outs, st'')))"

text \<open>
  \<open>main\<close> after the command line is read: parse the dataset, answer the queries on
  standard input, exit with \<open>errSeen\<close>. A crash of the parser ends the run.
\<close>

definition main :: "string \<Rightarrow> string \<Rightarrow> (error + report list \<times> int) option" where
  "main file stdin =
     (case parseFile file of
        Inl e \<Rightarrow> Some (Inl e)
      | Inr s \<Rightarrow>
         (case queries (s, 0) (getlines stdin) of
            None \<Rightarrow> None
          | Some (outs, s', errSeen) \<Rightarrow> Some (Inr (outs, errSeen))))"

section \<open>Shared-movie paths\<close>

text \<open>
  The graph of the specification: two actors of the store are connected when some movie
  is in the membership list of both. \<open>hops as k a b\<close> says that \<open>b\<close> is reached from
  \<open>a\<close> in exactly \<open>k\<close> such steps.
\<close>

definition shares_movie :: "actorNode list \<Rightarrow> nat \<Rightarrow> nat \<Rightarrow> bool" where
  "shares_movie as a b =
     (a < length as \<and> b < length as \<and> (\<exists>m \<in> set (movies (as ! a)). m \<in> set (movies (as ! b))))"

fun hops :: "actorNode list \<Rightarrow> nat \<Rightarrow> nat \<Rightarrow> nat \<Rightarrow> bool" where
  "hops as 0 a b = (a = b)"
| "hops as (Suc k) a b = (\<exists>c \<in> {..<length as}. hops as k a c \<and> shares_movie as c b)"

text \<open>\<open>d\<close> is the length of a shortest path from \<open>a\<close> to \<open>b\<close>.\<close>

definition shortest :: "actorNode list \<Rightarrow> nat \<Rightarrow> nat \<Rightarrow> nat \<Rightarrow> bool" where
  "shortest as a b d = (hops as d a b \<and> (\<forall>j. hops as j a b \<longrightarrow> d \<le> j))"

section \<open>Invariants\<close>

text \<open>
  The two membership relations of a store agree and point inside the store: a movie is in
  an actor's list exactly when the actor is in the movie's cast.
\<close>

definition wf_graph :: "movieNode list \<Rightarrow> actorNode list \<Rightarrow> bool" where
  "wf_graph mh as =
     ((\<forall>a < length as. \<forall>m \<in> set (movies (as ! a)). m < length mh \<and> a \<in> set (actors (mh ! m))) \<and>
      (\<forall>m < length mh. \<forall>c \<in> set (actors (mh ! m)). c < length as \<and> m \<in> set (movies (as ! c))))"

text \<open>
  The store \<open>s\<close> is the store \<open>s0\<close> up to the fields \<open>visited\<close> and \<open>level\<close>, the only
  ones a search writes: what \<open>main\<close> hands to \<open>BFS\<close> is the store the parser built, as the
  searches before left it.
\<close>

definition same_graph :: "store \<Rightarrow> store \<Rightarrow> bool" where
  "same_graph s0 s =
     (map actorName (headActors s) = map actorName (headActors s0) \<and>
      map movies (headActors s) = map movies (headActors s0) \<and>
      movieHeap s = movieHeap s0 \<and> headMovies s = headMovies s0)"

definition parse_inv :: "pstate \<Rightarrow> bool" where
  "parse_inv st =
     (case st of (s, movieTitle, movie) \<Rightarrow>
        wf_graph (movieHeap s) (headActors s) \<and>
        distinct (map actorName (headActors s)) \<and>
        (\<forall>m. movie = Some m \<longrightarrow> m < length (movieHeap s)))"

text \<open>The number of actors not yet visited; with the length of the queue it bounds the search.\<close>

definition unvisited :: "actorNode list \<Rightarrow> nat" where
  "unvisited as = card {i. i < length as \<and> \<not> visited (as ! i)}"

text \<open>
  The invariant of the loop \<open>while (q != NULL)\<close> for a search from \<open>a\<close> for \<open>t\<close> in the
  graph of \<open>as0\<close>: the fields \<open>visited\<close> and \<open>level\<close> are the only ones that changed, a
  visited actor carries its distance, the queue holds visited actors in the order of their
  levels, which differ by at most one, every actor no farther than the head of the queue is
  visited, and an actor that has left the queue has no unvisited neighbour.
\<close>

definition bfs_inv :: "actorNode list \<Rightarrow> nat \<Rightarrow> nat \<Rightarrow> actorNode list \<times> nat list \<Rightarrow> bool" where
  "bfs_inv as0 a t st =
     (case st of (as, q) \<Rightarrow>
        length as = length as0 \<and> map movies as = map movies as0 \<and>
        visited (as ! a) \<and> \<not> visited (as ! t) \<and>
        (\<forall>v < length as0. visited (as ! v) \<longrightarrow> (\<exists>d. level (as ! v) = int d \<and> shortest as0 a v d)) \<and>
        (\<forall>v \<in> set q. v < length as0 \<and> visited (as ! v)) \<and>
        (\<forall>v < length as0. visited (as ! v) \<and> v \<notin> set q \<longrightarrow>
            (\<forall>w. shares_movie as0 v w \<longrightarrow> visited (as ! w))) \<and>
        sorted (map (\<lambda>v. level (as ! v)) q) \<and>
        (q \<noteq> [] \<longrightarrow>
           (\<forall>v \<in> set q. level (as ! v) \<le> level (as ! hd q) + 1) \<and>
           (\<forall>w < length as0. \<forall>d. shortest as0 a w d \<and> int d \<le> level (as ! hd q)
               \<longrightarrow> visited (as ! w))))"

text \<open>What a search from \<open>a\<close> for \<open>t\<close> has to return.\<close>

definition bfs_result :: "actorNode list \<Rightarrow> nat \<Rightarrow> nat \<Rightarrow> int \<Rightarrow> bool" where
  "bfs_result as0 a t r =
     ((\<exists>d. r = int d \<and> shortest as0 a t d) \<or> (r = - 1 \<and> (\<forall>k. \<not> hops as0 k a t)))"

text \<open>
  What a scan for the dequeued actor \<open>x\<close> that starts in \<open>st\<close> has to deliver: a correct
  result when it returns, and otherwise a state in which the invariant holds with \<open>x\<close>
  still in front of the queue, no visited actor lost, and no more work left than before.
\<close>

definition scan_ok ::
  "actorNode list \<Rightarrow> nat \<Rightarrow> nat \<Rightarrow> nat \<Rightarrow> actorNode list \<times> nat list
     \<Rightarrow> (int \<times> actorNode list) + (actorNode list \<times> nat list) \<Rightarrow> bool" where
  "scan_ok as0 a t x st res =
     (case res of
        Inl (r, as') \<Rightarrow> bfs_result as0 a t r
      | Inr (as', q') \<Rightarrow>
          bfs_inv as0 a t (as', x # q') \<and>
          (\<forall>v. visited (fst st ! v) \<longrightarrow> visited (as' ! v)) \<and>
          length q' + unvisited as' \<le> length (snd st) + unvisited (fst st))"

section \<open>Example datasets\<close>

text \<open>
  The dataset of the scenario in the specification: "A Beautiful Mind" with Russell Crowe
  and Ed Harris, a blank line, "X-Men" with Kevin Bacon and Ed Harris; and the store
  \<open>parseFile\<close> builds from it.
\<close>

definition scenario_file :: string where
  "scenario_file =
     ''Movie: A Beautiful Mind'' @ [newline] @ ''Russell Crowe'' @ [newline] @
     ''Ed Harris'' @ [newline] @ [newline] @
     ''Movie: X-Men'' @ [newline] @ ''Kevin Bacon'' @ [newline] @ ''Ed Harris'' @ [newline]"

definition scenario_store :: store where
  "scenario_store =
     \<lparr>headActors =
        [\<lparr>actorName = ''Russell Crowe'', movies = [0], visited = False, level = 0\<rparr>,
         \<lparr>actorName = ''Ed Harris'', movies = [0, 1], visited = False, level = 0\<rparr>,
         \<lparr>actorName = ''Kevin Bacon'', movies = [1], visited = False, level = 0\<rparr>],
      movieHeap =
        [\<lparr>movieName = ''A Beautiful Mind'', actors = [0, 1]\<rparr>,
         \<lparr>movieName = ''X-Men'', actors = [2, 1]\<rparr>],
      headMovies = [0, 1]\<rparr>"

text \<open>The same store after the search from Kevin Bacon for Russell Crowe.\<close>

definition scenario_searched :: store where
  "scenario_searched =
     \<lparr>headActors =
        [\<lparr>actorName = ''Russell Crowe'', movies = [0], visited = True, level = 2\<rparr>,
         \<lparr>actorName = ''Ed Harris'', movies = [0, 1], visited = True, level = 1\<rparr>,
         \<lparr>actorName = ''Kevin Bacon'', movies = [1], visited = True, level = 0\<rparr>],
      movieHeap =
        [\<lparr>movieName = ''A Beautiful Mind'', actors = [0, 1]\<rparr>,
         \<lparr>movieName = ''X-Men'', actors = [2, 1]\<rparr>],
      headMovies = [0, 1]\<rparr>"

text \<open>Two movies with no actor in common: Kevin Bacon in one, Tom Hanks in the other.\<close>

definition apart_file :: string where
  "apart_file =
     ''Movie: X-Men'' @ [newline] @ ''Kevin Bacon'' @ [newline] @
     ''Movie: Big'' @ [newline] @ ''Tom Hanks'' @ [newline]"

definition apart_store :: store where
  "apart_store =
     \<lparr>headActors =
        [\<lparr>actorName = ''Kevin Bacon'', movies = [0], visited = False, level = 0\<rparr>,
         \<lparr>actorName = ''Tom Hanks'', movies = [1], visited = False, level = 0\<rparr>],
      movieHeap =
        [\<lparr>movieName = ''X-Men'', actors = [0]\<rparr>,
         \<lparr>movieName = ''Big'', actors = [1]\<rparr>],
      headMovies = [0, 1]\<rparr>"

text \<open>A dataset without Kevin Bacon.\<close>

definition baconless_file :: string where
  "baconless_file = ''Movie: Big'' @ [newline] @ ''Tom Hanks'' @ [newline]"

definition baconless_store :: store where
  "baconless_store =
     \<lparr>headActors = [\<lparr>actorName = ''Tom Hanks'', movies = [0], visited = False, level = 0\<rparr>],
      movieHeap = [\<lparr>movieName = ''Big'', actors = [0]\<rparr>],
      headMovies = [0]\<rparr>"

section \<open>Properties of the model\<close>

subsection \<open>Paths\<close>

lemma shares_movie_sym: "shares_movie as a b \<Longrightarrow> shares_movie as b a"
  by (auto simp: shares_movie_def)

lemma shares_movie_range: "shares_movie as a b \<Longrightarrow> a < length as \<and> b < length as"
  by (simp add: shares_movie_def)

lemma hops_least: "hops as k a b \<Longrightarrow> \<exists>d \<le> k. shortest as a b d"
proof -
  assume h: "hops as k a b"
  define d where "d = (LEAST j. hops as j a b)"
  have "hops as d a b" unfolding d_def using h by (rule LeastI)
  moreover have "\<And>j. hops as j a b \<Longrightarrow> d \<le> j" unfolding d_def by (rule Least_le)
  ultimately show ?thesis using h by (auto simp: shortest_def)
qed

lemma shortest_unique: "shortest as a b d \<Longrightarrow> shortest as a b d' \<Longrightarrow> d = d'"
  by (auto simp: shortest_def intro: antisym)

lemma shortest_self: "shortest as a a 0"
  by (simp add: shortest_def)

lemma shortest_zero: "shortest as a b 0 \<Longrightarrow> b = a"
  by (simp add: shortest_def)

lemma shortest_step:
  assumes "shortest as a v d" "v < length as" "shares_movie as v w"
  shows "\<exists>d' \<le> Suc d. shortest as a w d'"
proof -
  have "hops as (Suc d) a w" using assms by (auto simp: shortest_def)
  then show ?thesis by (rule hops_least)
qed

lemma shortest_pred:
  assumes "shortest as a w (Suc k)"
  shows "\<exists>u < length as. shortest as a u k \<and> shares_movie as u w"
proof -
  from assms obtain u where u: "u < length as" "hops as k a u" "shares_movie as u w"
    by (auto simp: shortest_def)
  have "k \<le> j" if "hops as j a u" for j
  proof -
    have "hops as (Suc j) a w" using that u by auto
    then have "Suc k \<le> Suc j" using assms by (simp only: shortest_def)
    then show ?thesis by simp
  qed
  then have "shortest as a u k" using u by (simp add: shortest_def)
  then show ?thesis using u by blast
qed

lemma hops_cons: "hops as (Suc k) a b \<longleftrightarrow> (\<exists>c. shares_movie as a c \<and> hops as k c b)"
proof (induction k arbitrary: b)
  case 0
  show ?case by (auto simp: shares_movie_def)
next
  case (Suc k)
  have "hops as (Suc (Suc k)) a b \<longleftrightarrow> (\<exists>c \<in> {..<length as}. hops as (Suc k) a c \<and> shares_movie as c b)"
    by simp
  also have "\<dots> \<longleftrightarrow> (\<exists>c \<in> {..<length as}. (\<exists>e. shares_movie as a e \<and> hops as k e c) \<and> shares_movie as c b)"
    using Suc.IH by simp
  also have "\<dots> \<longleftrightarrow> (\<exists>e. shares_movie as a e \<and> hops as (Suc k) e b)"
    by auto
  finally show ?case .
qed

lemma hops_sym: "hops as k a b \<Longrightarrow> hops as k b a"
proof (induction k arbitrary: a b)
  case 0
  then show ?case by simp
next
  case (Suc k)
  then obtain c where "hops as k a c" "shares_movie as c b" by auto
  then have "shares_movie as b c \<and> hops as k c a"
    using Suc.IH shares_movie_sym by blast
  then show ?case by (subst hops_cons) blast
qed

lemma shortest_sym: "shortest as a b d \<Longrightarrow> shortest as b a d"
  unfolding shortest_def using hops_sym by blast

subsection \<open>Field updates\<close>

lemma map_update_same: "f y = f (xs ! k) \<Longrightarrow> map f (xs[k := y]) = map f xs"
  by (cases "k < length xs") (simp_all add: map_update list_update_same_conv list_update_beyond)

lemma length_set_visited [simp]: "length (set_visited as c v) = length as"
  by (simp add: set_visited_def)

lemma length_set_level [simp]: "length (set_level as c l) = length as"
  by (simp add: set_level_def)

lemma movies_set_visited [simp]: "map movies (set_visited as c v) = map movies as"
  by (simp add: set_visited_def map_update_same)

lemma movies_set_level [simp]: "map movies (set_level as c l) = map movies as"
  by (simp add: set_level_def map_update_same)

lemma names_set_visited [simp]: "map actorName (set_visited as c v) = map actorName as"
  by (simp add: set_visited_def map_update_same)

lemma names_set_level [simp]: "map actorName (set_level as c l) = map actorName as"
  by (simp add: set_level_def map_update_same)

lemma visited_set_visited:
  "c < length as \<Longrightarrow> visited (set_visited as c v ! i) = (if i = c then v else visited (as ! i))"
  by (simp add: set_visited_def nth_list_update)

lemma level_set_visited [simp]: "level (set_visited as c v ! i) = level (as ! i)"
  by (cases "c < length as") (simp_all add: set_visited_def nth_list_update list_update_beyond)

lemma visited_set_level [simp]: "visited (set_level as c l ! i) = visited (as ! i)"
  by (cases "c < length as") (simp_all add: set_level_def nth_list_update list_update_beyond)

lemma level_set_level:
  "c < length as \<Longrightarrow> level (set_level as c l ! i) = (if i = c then l else level (as ! i))"
  by (simp add: set_level_def nth_list_update)

lemma unvisited_set_level [simp]: "unvisited (set_level as c l) = unvisited as"
  by (simp add: unvisited_def)

lemma unvisited_set_visited:
  assumes "c < length as" "\<not> visited (as ! c)"
  shows "Suc (unvisited (set_visited as c True)) = unvisited as"
proof -
  let ?U = "{i. i < length as \<and> \<not> visited (as ! i)}"
  have "{i. i < length (set_visited as c True) \<and> \<not> visited (set_visited as c True ! i)} = ?U - {c}"
    using assms by (auto simp: visited_set_visited)
  moreover have "finite ?U" "c \<in> ?U" using assms by auto
  ultimately show ?thesis
    unfolding unvisited_def by (metis card_Suc_Diff1)
qed

lemma movies_nth: "map movies as = map movies as0 \<Longrightarrow> v < length as0 \<Longrightarrow> movies (as ! v) = movies (as0 ! v)"
  by (metis length_map nth_map)

subsection \<open>One discovered actor\<close>

lemma bfs_inv_iff:
  "bfs_inv as0 a t (as, q) \<longleftrightarrow>
     length as = length as0 \<and> map movies as = map movies as0 \<and>
     visited (as ! a) \<and> \<not> visited (as ! t) \<and>
     (\<forall>v < length as0. visited (as ! v) \<longrightarrow> (\<exists>d. level (as ! v) = int d \<and> shortest as0 a v d)) \<and>
     (\<forall>v \<in> set q. v < length as0 \<and> visited (as ! v)) \<and>
     (\<forall>v < length as0. visited (as ! v) \<and> v \<notin> set q \<longrightarrow>
         (\<forall>w. shares_movie as0 v w \<longrightarrow> visited (as ! w))) \<and>
     sorted (map (\<lambda>v. level (as ! v)) q) \<and>
     (q \<noteq> [] \<longrightarrow>
        (\<forall>v \<in> set q. level (as ! v) \<le> level (as ! hd q) + 1) \<and>
        (\<forall>w < length as0. \<forall>d. shortest as0 a w d \<and> int d \<le> level (as ! hd q)
            \<longrightarrow> visited (as ! w)))"
  by (simp add: bfs_inv_def)

lemma bfs_invD:
  assumes "bfs_inv as0 a t (as, q)"
  shows "length as = length as0" "map movies as = map movies as0"
    "visited (as ! a)" "\<not> visited (as ! t)"
    "\<And>v. v < length as0 \<Longrightarrow> visited (as ! v) \<Longrightarrow> \<exists>d. level (as ! v) = int d \<and> shortest as0 a v d"
    "\<And>v. v \<in> set q \<Longrightarrow> v < length as0 \<and> visited (as ! v)"
    "\<And>v w. v < length as0 \<Longrightarrow> visited (as ! v) \<Longrightarrow> v \<notin> set q \<Longrightarrow> shares_movie as0 v w \<Longrightarrow> visited (as ! w)"
    "sorted (map (\<lambda>v. level (as ! v)) q)"
    "\<And>v. q \<noteq> [] \<Longrightarrow> v \<in> set q \<Longrightarrow> level (as ! v) \<le> level (as ! hd q) + 1"
    "\<And>w d. q \<noteq> [] \<Longrightarrow> w < length as0 \<Longrightarrow> shortest as0 a w d \<Longrightarrow> int d \<le> level (as ! hd q) \<Longrightarrow> visited (as ! w)"
  using assms unfolding bfs_inv_iff by blast+

lemma discover:
  assumes inv: "bfs_inv as0 a t (as, x # q)"
    and nb: "shares_movie as0 x c"
    and unv: "\<not> visited (as ! c)"
  defines "as2 \<equiv> set_level (set_visited as c True) c (level (set_visited as c True ! x) + 1)"
  shows "(\<exists>d. level (as2 ! c) = int d \<and> shortest as0 a c d) \<and>
         (c \<noteq> t \<longrightarrow> bfs_inv as0 a t (as2, x # enqueue q c)) \<and>
         Suc (unvisited as2) = unvisited as \<and>
         (\<forall>v. visited (as ! v) \<longrightarrow> visited (as2 ! v)) \<and> visited (as2 ! c)"
proof -
  note I = bfs_invD [OF inv]
  have len: "length as = length as0" and mov: "map movies as = map movies as0"
    and va: "visited (as ! a)" and vt: "\<not> visited (as ! t)"
    using I by simp_all
  note lev = I(5)
  note qv = I(6)
  have black: "\<And>v w. v < length as0 \<Longrightarrow> visited (as ! v) \<Longrightarrow> v \<notin> set (x # q) \<Longrightarrow> shares_movie as0 v w \<Longrightarrow> visited (as ! w)"
    using I(7) by blast
  note srt = I(8)
  have near: "\<And>v. v \<in> set (x # q) \<Longrightarrow> level (as ! v) \<le> level (as ! x) + 1"
    using I(9) by force
  have full: "\<And>w d. w < length as0 \<Longrightarrow> shortest as0 a w d \<Longrightarrow> int d \<le> level (as ! x) \<Longrightarrow> visited (as ! w)"
    using I(10) by force
  have xn: "x < length as0" and vx: "visited (as ! x)" using qv by simp_all
  have cn: "c < length as0" using nb by (simp add: shares_movie_def)
  have cx: "c \<noteq> x" using vx unv by blast
  have cq: "c \<notin> set (x # q)" using qv unv by blast
  from lev [OF xn vx] obtain dx where dx: "level (as ! x) = int dx" "shortest as0 a x dx"
    by blast
  from shortest_step [OF dx(2) xn nb] obtain d' where d': "d' \<le> Suc dx" "shortest as0 a c d'"
    by blast
  have "\<not> d' \<le> dx"
  proof
    assume "d' \<le> dx"
    then have "int d' \<le> level (as ! x)" using dx by simp
    then have "visited (as ! c)" using full cn d' by blast
    then show False using unv by simp
  qed
  then have d'eq: "d' = Suc dx" using d' by simp
  have cl: "c < length as" using cn len by simp
  have V: "\<And>i. visited (as2 ! i) = (i = c \<or> visited (as ! i))"
    using cl by (simp add: as2_def visited_set_visited)
  have L: "\<And>i. level (as2 ! i) = (if i = c then int (Suc dx) else level (as ! i))"
    using cl dx by (simp add: as2_def level_set_level)
  have len2: "length as2 = length as0" using len by (simp add: as2_def)
  have mov2: "map movies as2 = map movies as0" using mov by (simp add: as2_def)
  have "level (as2 ! c) = int (Suc dx)" using L [of c] by simp
  moreover have "shortest as0 a c (Suc dx)" using d' d'eq by simp
  ultimately have A: "\<exists>d. level (as2 ! c) = int d \<and> shortest as0 a c d"
    by blast
  have C: "Suc (unvisited as2) = unvisited as"
    using unvisited_set_visited [OF cl unv] by (simp add: as2_def)
  have B: "bfs_inv as0 a t (as2, x # enqueue q c)" if ct: "c \<noteq> t"
  proof -
    have 1: "visited (as2 ! a)" using va V by simp
    have 2: "\<not> visited (as2 ! t)" using vt V ct by simp
    have 3: "\<forall>v < length as0. visited (as2 ! v) \<longrightarrow> (\<exists>d. level (as2 ! v) = int d \<and> shortest as0 a v d)"
    proof (intro allI impI)
      fix v assume "v < length as0" "visited (as2 ! v)"
      then show "\<exists>d. level (as2 ! v) = int d \<and> shortest as0 a v d"
        using A lev [of v] V [of v] L [of v] by (cases "v = c") auto
    qed
    have 4: "\<forall>v \<in> set (x # enqueue q c). v < length as0 \<and> visited (as2 ! v)"
      using qv cn V by (auto simp: enqueue_def)
    have 5: "\<forall>v < length as0. visited (as2 ! v) \<and> v \<notin> set (x # enqueue q c) \<longrightarrow>
         (\<forall>w. shares_movie as0 v w \<longrightarrow> visited (as2 ! w))"
    proof (intro allI impI)
      fix v w assume "v < length as0" "visited (as2 ! v) \<and> v \<notin> set (x # enqueue q c)" "shares_movie as0 v w"
      then have "visited (as ! w)" using black [of v w] V [of v] by (auto simp: enqueue_def)
      then show "visited (as2 ! w)" using V by simp
    qed
    have same: "map (\<lambda>v. level (as2 ! v)) (x # q) = map (\<lambda>v. level (as ! v)) (x # q)"
      using cq L by (intro map_cong) auto
    have "\<forall>e \<in> set (map (\<lambda>v. level (as ! v)) (x # q)). e \<le> level (as2 ! c)"
    proof
      fix e assume "e \<in> set (map (\<lambda>v. level (as ! v)) (x # q))"
      then obtain v where "v \<in> set (x # q)" "e = level (as ! v)" by auto
      then show "e \<le> level (as2 ! c)" using near [of v] L [of c] dx by simp
    qed
    then have "sorted (map (\<lambda>v. level (as2 ! v)) (x # q) @ [level (as2 ! c)])"
      unfolding same sorted_append using srt by simp
    then have 6: "sorted (map (\<lambda>v. level (as2 ! v)) (x # enqueue q c))"
      by (simp add: enqueue_def)
    have lx: "level (as2 ! x) = level (as ! x)" using L cx by simp
    have 7: "\<forall>v \<in> set (x # enqueue q c). level (as2 ! v) \<le> level (as2 ! hd (x # enqueue q c)) + 1"
    proof
      fix v assume "v \<in> set (x # enqueue q c)"
      then consider "v = c" | "v \<noteq> c" "v \<in> set (x # q)" by (auto simp: enqueue_def)
      then show "level (as2 ! v) \<le> level (as2 ! hd (x # enqueue q c)) + 1"
        using near [of v] L dx lx by cases auto
    qed
    have 8: "\<forall>w < length as0. \<forall>d. shortest as0 a w d \<and> int d \<le> level (as2 ! hd (x # enqueue q c))
            \<longrightarrow> visited (as2 ! w)"
      using full V lx by auto
    show ?thesis
      unfolding bfs_inv_iff using len2 mov2 1 2 3 4 5 6 7 8 by simp
  qed
  show ?thesis using A B C V by simp
qed

subsection \<open>The scans\<close>

lemma scan_ok_Inl: "scan_ok as0 a t x st (Inl (r, as')) = bfs_result as0 a t r"
  by (simp add: scan_ok_def)

lemma scan_ok_Inr:
  "scan_ok as0 a t x (as, q) (Inr (as', q')) =
     (bfs_inv as0 a t (as', x # q') \<and> (\<forall>v. visited (as ! v) \<longrightarrow> visited (as' ! v)) \<and>
      length q' + unvisited as' \<le> length q + unvisited as)"
  by (simp add: scan_ok_def)

lemma scan_ok_trans:
  assumes "scan_ok as0 a t x (as, q) (Inr (as1, q1))" "scan_ok as0 a t x (as1, q1) res"
  shows "scan_ok as0 a t x (as, q) res"
proof (cases res)
  case (Inl p)
  then show ?thesis using assms by (cases p) (simp add: scan_ok_Inl)
next
  case (Inr p)
  then show ?thesis using assms by (cases p) (auto simp: scan_ok_Inr)
qed

lemma scan_cast_ok:
  assumes "bfs_inv as0 a t (as, x # q)" "\<forall>c \<in> set co. shares_movie as0 x c"
  shows "scan_ok as0 a t x (as, q) (scan_cast t x co (as, q)) \<and>
         (\<forall>as' q'. scan_cast t x co (as, q) = Inr (as', q') \<longrightarrow> (\<forall>c \<in> set co. visited (as' ! c)))"
  using assms
proof (induction co arbitrary: as q)
  case Nil
  then show ?case by (simp add: scan_ok_Inr)
next
  case (Cons c co)
  have nb: "shares_movie as0 x c" and rest: "\<forall>c \<in> set co. shares_movie as0 x c"
    using Cons.prems(2) by simp_all
  show ?case
  proof (cases "visited (as ! c)")
    case True
    have eq: "scan_cast t x (c # co) (as, q) = scan_cast t x co (as, q)"
      using True by simp
    have ih: "scan_ok as0 a t x (as, q) (scan_cast t x co (as, q)) \<and>
         (\<forall>as' q'. scan_cast t x co (as, q) = Inr (as', q') \<longrightarrow> (\<forall>c \<in> set co. visited (as' ! c)))"
      using Cons.IH [OF Cons.prems(1) rest] .
    have "visited (as' ! c)" if "scan_cast t x co (as, q) = Inr (as', q')" for as' q'
      using ih that True by (simp add: scan_ok_Inr)
    then show ?thesis unfolding eq using ih by auto
  next
    case False
    define as2 where "as2 = set_level (set_visited as c True) c (level (set_visited as c True ! x) + 1)"
    note D = discover [OF Cons.prems(1) nb False, folded as2_def]
    show ?thesis
    proof (cases "c = t")
      case True
      have "scan_cast t x (c # co) (as, q) = Inl (level (as2 ! c), as2)"
        using False True by (simp add: as2_def Let_def)
      moreover have "bfs_result as0 a t (level (as2 ! c))"
        using D True by (auto simp: bfs_result_def)
      ultimately show ?thesis by (simp add: scan_ok_Inl)
    next
      case ct: False
      have eq: "scan_cast t x (c # co) (as, q) = scan_cast t x co (as2, enqueue q c)"
        using False ct by (simp add: as2_def Let_def)
      have inv2: "bfs_inv as0 a t (as2, x # enqueue q c)" using D ct by blast
      have ih: "scan_ok as0 a t x (as2, enqueue q c) (scan_cast t x co (as2, enqueue q c)) \<and>
         (\<forall>as' q'. scan_cast t x co (as2, enqueue q c) = Inr (as', q') \<longrightarrow> (\<forall>c \<in> set co. visited (as' ! c)))"
        using Cons.IH [OF inv2 rest] .
      have step: "scan_ok as0 a t x (as, q) (Inr (as2, enqueue q c))"
        using inv2 D by (simp add: scan_ok_Inr enqueue_def)
      have 1: "scan_ok as0 a t x (as, q) (scan_cast t x co (as2, enqueue q c))"
        using scan_ok_trans [OF step] ih by blast
      have "visited (as' ! c)" if "scan_cast t x co (as2, enqueue q c) = Inr (as', q')" for as' q'
        using ih that D by (simp add: scan_ok_Inr)
      then show ?thesis unfolding eq using 1 ih by auto
    qed
  qed
qed

lemma wf_graph_cast:
  assumes "wf_graph mh as0" "x < length as0" "m \<in> set (movies (as0 ! x))" "c \<in> set (actors (mh ! m))"
  shows "shares_movie as0 x c"
  using assms unfolding wf_graph_def shares_movie_def by blast

lemma wf_graph_neighbour:
  assumes "wf_graph mh as0" "shares_movie as0 x w"
  shows "\<exists>m \<in> set (movies (as0 ! x)). w \<in> set (actors (mh ! m))"
  using assms unfolding wf_graph_def shares_movie_def by blast

lemma scan_movies_ok:
  assumes "bfs_inv as0 a t (as, x # q)" "wf_graph mh as0" "set ml \<subseteq> set (movies (as0 ! x))"
  shows "scan_ok as0 a t x (as, q) (scan_movies mh t x ml (as, q)) \<and>
         (\<forall>as' q'. scan_movies mh t x ml (as, q) = Inr (as', q') \<longrightarrow>
            (\<forall>m \<in> set ml. \<forall>c \<in> set (actors (mh ! m)). visited (as' ! c)))"
  using assms
proof (induction ml arbitrary: as q)
  case Nil
  then show ?case by (simp add: scan_ok_Inr)
next
  case (Cons m ml)
  have xn: "x < length as0" using bfs_invD(6) [OF Cons.prems(1), of x] by simp
  have m: "m \<in> set (movies (as0 ! x))" and ml: "set ml \<subseteq> set (movies (as0 ! x))"
    using Cons.prems(3) by simp_all
  have nbs: "\<forall>c \<in> set (actors (mh ! m)). shares_movie as0 x c"
    using wf_graph_cast [OF Cons.prems(2) xn m] by blast
  note C = scan_cast_ok [OF Cons.prems(1) nbs]
  show ?case
  proof (cases "scan_cast t x (actors (mh ! m)) (as, q)")
    case (Inl p)
    then show ?thesis using C by simp
  next
    case (Inr p)
    obtain as1 q1 where p: "p = (as1, q1)" by (cases p)
    have r: "scan_cast t x (actors (mh ! m)) (as, q) = Inr (as1, q1)" using Inr p by simp
    have ok1: "scan_ok as0 a t x (as, q) (Inr (as1, q1))" using C r by simp
    have inv1: "bfs_inv as0 a t (as1, x # q1)" using ok1 by (simp add: scan_ok_Inr)
    have vis1: "\<forall>c \<in> set (actors (mh ! m)). visited (as1 ! c)" using C r by blast
    have eq: "scan_movies mh t x (m # ml) (as, q) = scan_movies mh t x ml (as1, q1)"
      using r by simp
    note ih = Cons.IH [OF inv1 Cons.prems(2) ml]
    have 1: "scan_ok as0 a t x (as, q) (scan_movies mh t x ml (as1, q1))"
      using scan_ok_trans [OF ok1] ih by blast
    have "\<forall>c \<in> set (actors (mh ! m)). visited (as' ! c)"
      if "scan_movies mh t x ml (as1, q1) = Inr (as', q')" for as' q'
    proof -
      have "scan_ok as0 a t x (as1, q1) (Inr (as', q'))" using ih that by simp
      then show ?thesis using vis1 by (simp add: scan_ok_Inr)
    qed
    then show ?thesis unfolding eq using 1 ih by auto
  qed
qed

subsection \<open>Leaving the queue\<close>

lemma bfs_inv_pop:
  assumes inv: "bfs_inv as0 a t (as, x # q)"
    and nbs: "\<forall>w. shares_movie as0 x w \<longrightarrow> visited (as ! w)"
  shows "bfs_inv as0 a t (as, q)"
proof -
  note I = bfs_invD [OF inv]
  have xn: "x < length as0" and vx: "visited (as ! x)" using I(6) [of x] by simp_all
  from I(5) [OF xn vx] obtain dx where dx: "level (as ! x) = int dx" "shortest as0 a x dx"
    by blast
  have near: "\<And>v. v \<in> set (x # q) \<Longrightarrow> level (as ! v) \<le> level (as ! x) + 1"
    using I(9) by force
  have full: "\<And>w d. w < length as0 \<Longrightarrow> shortest as0 a w d \<Longrightarrow> int d \<le> level (as ! x) \<Longrightarrow> visited (as ! w)"
    using I(10) by force
  have srt: "sorted (map (\<lambda>v. level (as ! v)) (x # q))" using I(8) .
  have low: "\<And>v. v \<in> set q \<Longrightarrow> level (as ! x) \<le> level (as ! v)"
    using srt by auto
  have 1: "\<forall>v \<in> set q. v < length as0 \<and> visited (as ! v)" using I(6) by simp
  have 2: "\<forall>v < length as0. visited (as ! v) \<and> v \<notin> set q \<longrightarrow>
         (\<forall>w. shares_movie as0 v w \<longrightarrow> visited (as ! w))"
  proof (intro allI impI)
    fix v w assume v: "v < length as0" "visited (as ! v) \<and> v \<notin> set q" "shares_movie as0 v w"
    show "visited (as ! w)"
    proof (cases "v = x")
      case True
      then show ?thesis using nbs v by blast
    next
      case False
      then have "v \<notin> set (x # q)" using v by simp
      then show ?thesis using I(7) [of v w] v by blast
    qed
  qed
  have 3: "sorted (map (\<lambda>v. level (as ! v)) q)" using srt by simp
  have 4: "\<forall>v \<in> set q. level (as ! v) \<le> level (as ! hd q) + 1" if "q \<noteq> []"
  proof
    fix v assume "v \<in> set q"
    then have "level (as ! v) \<le> level (as ! x) + 1" using near by simp
    moreover have "level (as ! x) \<le> level (as ! hd q)" using low that by simp
    ultimately show "level (as ! v) \<le> level (as ! hd q) + 1" by simp
  qed
  have 5: "\<forall>w < length as0. \<forall>d. shortest as0 a w d \<and> int d \<le> level (as ! hd q) \<longrightarrow> visited (as ! w)"
    if ne: "q \<noteq> []"
  proof (intro allI impI)
    fix w d assume w: "w < length as0" and d: "shortest as0 a w d \<and> int d \<le> level (as ! hd q)"
    have hq: "hd q \<in> set q" using ne by simp
    have up: "level (as ! hd q) \<le> int dx + 1" using near [of "hd q"] hq dx by simp
    show "visited (as ! w)"
    proof (cases "d \<le> dx")
      case True
      then have "int d \<le> level (as ! x)" using dx by simp
      then show ?thesis using full [OF w] d by blast
    next
      case False
      then have deq: "d = Suc dx" and hl: "level (as ! hd q) = int dx + 1" using d up by simp_all
      from shortest_pred [of as0 a w dx] d deq
      obtain u where u: "u < length as0" "shortest as0 a u dx" "shares_movie as0 u w" by blast
      have vu: "visited (as ! u)" using full [OF u(1) u(2)] dx by simp
      from I(5) [OF u(1) vu] obtain du where du: "level (as ! u) = int du" "shortest as0 a u du"
        by blast
      have lu: "level (as ! u) = int dx" using shortest_unique [OF u(2) du(2)] du by simp
      have "u \<notin> set q"
      proof
        assume uq: "u \<in> set q"
        have "level (as ! hd q) \<le> level (as ! u)"
          using 3 uq ne by (cases q) auto
        then show False using hl lu by simp
      qed
      then show ?thesis using 2 u vu by blast
    qed
  qed
  show ?thesis
    unfolding bfs_inv_iff using I(1-5) 1 2 3 4 5 by simp
qed

lemma bfs_inv_closed:
  assumes inv: "bfs_inv as0 a t (as, [])" and a: "a < length as0"
  shows "hops as0 k a v \<Longrightarrow> v < length as0 \<and> visited (as ! v)"
proof (induction k arbitrary: v)
  case 0
  then show ?case using a bfs_invD(3) [OF inv] by simp
next
  case (Suc k)
  then obtain c where c: "c < length as0" "hops as0 k a c" "shares_movie as0 c v" by auto
  have "visited (as ! c)" using Suc.IH [OF c(2)] by simp
  then have "visited (as ! v)" using bfs_invD(7) [OF inv c(1) _ _ c(3)] by simp
  then show ?case using c(3) by (simp add: shares_movie_def)
qed

subsection \<open>The search\<close>

lemma clear_all_map: "clear_all as = map (\<lambda>cur. cur\<lparr>visited := False, level := - 1\<rparr>) as"
  by (induction as) simp_all

lemma bfs_inv_init:
  assumes "a < length as0" "t < length as0" "a \<noteq> t"
  shows "bfs_inv as0 a t (set_level (set_visited (clear_all as0) a True) a 0, enqueue [] a)"
proof -
  let ?as = "set_level (set_visited (clear_all as0) a True) a 0"
  have len: "length (clear_all as0) = length as0" by (simp add: clear_all_map)
  have V: "\<And>i. i < length as0 \<Longrightarrow> visited (?as ! i) = (i = a)"
    using assms(1) by (simp add: visited_set_visited len) (simp add: clear_all_map)
  have L: "level (?as ! a) = 0"
    using assms(1) by (simp add: level_set_level len)
  have M: "map movies ?as = map movies as0"
    by (simp add: clear_all_map comp_def)
  have S: "\<And>w d. shortest as0 a w d \<Longrightarrow> int d \<le> 0 \<Longrightarrow> w = a"
    using shortest_zero by auto
  show ?thesis
    unfolding bfs_inv_iff
    using V L M S assms len shortest_self [of as0 a] by (auto simp: enqueue_def)
qed

lemma bfs_loop_total:
  assumes wf: "wf_graph mh as0" and a: "a < length as0"
  shows "bfs_inv as0 a t (as, q) \<Longrightarrow>
         \<exists>r as'. bfs_loop mh t (as, q) = Some (r, as') \<and> bfs_result as0 a t r"
proof (induction "length q + unvisited as" arbitrary: as q rule: less_induct)
  case less
  note inv = less.prems
  show ?case
  proof (cases q)
    case Nil
    have "\<not> hops as0 k a t" for k
      using bfs_inv_closed [OF inv [unfolded Nil] a, of k t] bfs_invD(4) [OF inv] by blast
    then have "bfs_result as0 a t (- 1)" by (simp add: bfs_result_def)
    moreover have "bfs_loop mh t (as, q) = Some (- 1, as)"
      using Nil by (subst bfs_loop.simps) simp
    ultimately show ?thesis by blast
  next
    case (Cons x q')
    have inv': "bfs_inv as0 a t (as, x # q')" using inv Cons by simp
    have xn: "x < length as0" using bfs_invD(6) [OF inv', of x] by simp
    have mx: "movies (as ! x) = movies (as0 ! x)"
      using movies_nth [OF bfs_invD(2) [OF inv'] xn] .
    note S = scan_movies_ok [OF inv' wf, of "movies (as ! x)", unfolded mx, OF subset_refl]
    show ?thesis
    proof (cases "scan_movies mh t x (movies (as0 ! x)) (as, q')")
      case (Inl p)
      obtain r as' where p: "p = (r, as')" by (cases p)
      have "bfs_result as0 a t r" using S Inl p by (simp add: scan_ok_Inl)
      moreover have "bfs_loop mh t (as, q) = Some (r, as')"
        using Cons Inl p mx by (subst bfs_loop.simps) simp
      ultimately show ?thesis by blast
    next
      case (Inr p)
      obtain as1 q1 where p: "p = (as1, q1)" by (cases p)
      have r: "scan_movies mh t x (movies (as0 ! x)) (as, q') = Inr (as1, q1)"
        using Inr p by simp
      have ok: "scan_ok as0 a t x (as, q') (Inr (as1, q1))" using S r by simp
      have inv1: "bfs_inv as0 a t (as1, x # q1)" using ok by (simp add: scan_ok_Inr)
      have seen: "\<forall>m \<in> set (movies (as0 ! x)). \<forall>c \<in> set (actors (mh ! m)). visited (as1 ! c)"
        using S r by blast
      have "\<forall>w. shares_movie as0 x w \<longrightarrow> visited (as1 ! w)"
        using wf_graph_neighbour [OF wf] seen by blast
      then have inv2: "bfs_inv as0 a t (as1, q1)" using bfs_inv_pop [OF inv1] by blast
      have "length q1 + unvisited as1 < length q + unvisited as"
        using ok Cons by (simp add: scan_ok_Inr)
      from less.hyps [OF this inv2]
      obtain r as' where "bfs_loop mh t (as1, q1) = Some (r, as')" "bfs_result as0 a t r"
        by blast
      moreover have "bfs_loop mh t (as, q) = bfs_loop mh t (as1, q1)"
        using Cons r mx by (subst bfs_loop.simps) simp
      ultimately show ?thesis by auto
    qed
  qed
qed

lemma BFS_total:
  assumes wf: "wf_graph (movieHeap s) (headActors s)"
    and a: "a < length (headActors s)" and t: "t < length (headActors s)"
  shows "\<exists>r s'. BFS s a t = Some (r, s') \<and> bfs_result (headActors s) a t r"
proof (cases "a = t")
  case True
  have "bfs_result (headActors s) a a 0"
    using shortest_self [of "headActors s" a] unfolding bfs_result_def
    by (metis of_nat_0)
  then show ?thesis using True by (simp add: BFS_def)
next
  case False
  from bfs_loop_total [OF wf a bfs_inv_init [OF a t False]]
  obtain r as' where
    "bfs_loop (movieHeap s) t (set_level (set_visited (clear_all (headActors s)) a True) a 0, enqueue [] a)
       = Some (r, as')" "bfs_result (headActors s) a t r"
    by blast
  then show ?thesis using False by (simp add: BFS_def Let_def)
qed

subsection \<open>The store built by the parser\<close>

lemma isInLL_iff: "isInLL as name \<longleftrightarrow> name \<in> set (map actorName as)"
  by (induction as) auto

lemma findActor_Some: "findActor as name = Some i \<Longrightarrow> i < length as \<and> actorName (as ! i) = name"
proof (induction as arbitrary: i)
  case Nil
  then show ?case by simp
next
  case (Cons cur rest)
  then show ?case by (cases i) (auto split: if_splits)
qed

lemma findActor_None: "findActor as name = None \<longleftrightarrow> name \<notin> set (map actorName as)"
  by (induction as) auto

lemma distinct_names_inj:
  assumes "distinct (map actorName as)" "i < length as" "j < length as"
    "actorName (as ! i) = actorName (as ! j)"
  shows "i = j"
proof -
  have "map actorName as ! i = map actorName as ! j" using assms by simp
  then show ?thesis using assms(1-3) by (metis length_map nth_eq_iff_index_eq)
qed

lemma findActor_distinct:
  assumes "distinct (map actorName as)" "i < length as"
  shows "findActor as (actorName (as ! i)) = Some i"
proof -
  have "actorName (as ! i) \<in> set (map actorName as)" using assms(2) by simp
  then obtain j where j: "findActor as (actorName (as ! i)) = Some j"
    using findActor_None [of as "actorName (as ! i)"] by (cases "findActor as (actorName (as ! i))") auto
  then have "j < length as" "actorName (as ! j) = actorName (as ! i)"
    using findActor_Some by blast+
  then have "j = i"
    using distinct_names_inj [OF assms(1) _ assms(2)] by blast
  then show ?thesis using j by simp
qed

lemma set_cast_append:
  assumes "distinct (map actorName as)" "i < length as" "\<forall>c \<in> set cast. c < length as"
  shows "set (cast_append as cast i) = insert i (set cast)"
  using assms
proof (induction as cast i rule: cast_append.induct)
  case (1 as actor)
  then show ?case by simp
next
  case (2 as curActor actor)
  then show ?case by auto
next
  case (3 as curActor nxt rest actor)
  show ?case
  proof (cases "actorName (as ! curActor) = actorName (as ! actor)")
    case True
    have "curActor < length as" using "3.prems" by simp
    then have "curActor = actor"
      using distinct_names_inj [OF "3.prems"(1) _ "3.prems"(2) True] by blast
    then show ?thesis using True by auto
  next
    case False
    then show ?thesis using "3.IH" "3.prems" by auto
  qed
qed

lemma wf_graph_new_actor:
  assumes wf: "wf_graph mh as" and node: "movies node = []"
  shows "wf_graph mh (as @ [node])"
  unfolding wf_graph_def
proof (intro conjI allI impI ballI)
  fix a k assume a: "a < length (as @ [node])" and k: "k \<in> set (movies ((as @ [node]) ! a))"
  have "a < length as" using a k node by (cases "a = length as") (simp_all add: nth_append)
  then have "k \<in> set (movies (as ! a))" using k by (simp add: nth_append)
  then show "k < length mh" "a \<in> set (actors (mh ! k))"
    using wf \<open>a < length as\<close> unfolding wf_graph_def by blast+
next
  fix k c assume k: "k < length mh" and c: "c \<in> set (actors (mh ! k))"
  have "c < length as" "k \<in> set (movies (as ! c))"
    using wf k c unfolding wf_graph_def by blast+
  then show "c < length (as @ [node])" "k \<in> set (movies ((as @ [node]) ! c))"
    by (simp_all add: nth_append)
qed

lemma wf_graph_new_movie:
  assumes wf: "wf_graph mh as"
  shows "wf_graph (mh @ [\<lparr>movieName = title, actors = []\<rparr>]) as"
  unfolding wf_graph_def
proof (intro conjI allI impI ballI)
  fix a k assume "a < length as" "k \<in> set (movies (as ! a))"
  then have "k < length mh" "a \<in> set (actors (mh ! k))"
    using wf unfolding wf_graph_def by blast+
  then show "k < length (mh @ [\<lparr>movieName = title, actors = []\<rparr>])"
    "a \<in> set (actors ((mh @ [\<lparr>movieName = title, actors = []\<rparr>]) ! k))"
    by (simp_all add: nth_append)
next
  fix k c assume k: "k < length (mh @ [\<lparr>movieName = title, actors = []\<rparr>])"
    and c: "c \<in> set (actors ((mh @ [\<lparr>movieName = title, actors = []\<rparr>]) ! k))"
  have "k < length mh" using k c by (cases "k = length mh") (simp_all add: nth_append)
  then have "c \<in> set (actors (mh ! k))" using c by (simp add: nth_append)
  then show "c < length as" "k \<in> set (movies (as ! c))"
    using wf \<open>k < length mh\<close> unfolding wf_graph_def by blast+
qed

lemma wf_graph_link:
  assumes wf: "wf_graph (movieHeap s) (headActors s)"
    and dn: "distinct (map actorName (headActors s))"
    and i: "i < length (headActors s)" and m: "m < length (movieHeap s)"
  defines "s' \<equiv> addActorToMovie (addMovieToActorsMovies s i m) m i"
  shows "wf_graph (movieHeap s') (headActors s') \<and>
         map actorName (headActors s') = map actorName (headActors s) \<and>
         length (movieHeap s') = length (movieHeap s) \<and>
         movies (headActors s' ! i) = movies (headActors s ! i) @ [m] \<and>
         i \<in> set (actors (movieHeap s' ! m))"
proof -
  define as where "as = headActors s"
  define mh where "mh = movieHeap s"
  define as' where "as' = as[i := (as ! i)\<lparr>movies := movies (as ! i) @ [m]\<rparr>]"
  define cast where "cast = cast_append as' (actors (mh ! m)) i"
  define mh' where "mh' = mh[m := (mh ! m)\<lparr>actors := cast\<rparr>]"
  have as': "headActors s' = as'"
    by (simp add: s'_def addActorToMovie_def addMovieToActorsMovies_def as'_def as_def)
  have mh': "movieHeap s' = mh'"
    by (simp add: s'_def addActorToMovie_def addMovieToActorsMovies_def mh'_def cast_def
        as'_def as_def mh_def)
  have i': "i < length as" and m': "m < length mh" using i m by (simp_all add: as_def mh_def)
  have la: "length as' = length as" by (simp add: as'_def)
  have lm: "length mh' = length mh" by (simp add: mh'_def)
  have names: "map actorName as' = map actorName as"
    by (simp add: as'_def map_update_same)
  have 1: "\<And>a k. a < length as \<Longrightarrow> k \<in> set (movies (as ! a)) \<Longrightarrow> k < length mh \<and> a \<in> set (actors (mh ! k))"
    and 2: "\<And>k c. k < length mh \<Longrightarrow> c \<in> set (actors (mh ! k)) \<Longrightarrow> c < length as \<and> k \<in> set (movies (as ! c))"
    using wf unfolding wf_graph_def as_def mh_def by blast+
  have "\<forall>c \<in> set (actors (mh ! m)). c < length as'"
    using 2 [OF m'] la by simp
  then have cast: "set cast = insert i (set (actors (mh ! m)))"
    unfolding cast_def using set_cast_append [of as' i "actors (mh ! m)"] dn i' names la
    by (simp add: as_def)
  have Mi: "movies (as' ! i) = movies (as ! i) @ [m]" using i' by (simp add: as'_def)
  have Mo: "\<And>a. a \<noteq> i \<Longrightarrow> movies (as' ! a) = movies (as ! a)" by (simp add: as'_def)
  have Cm: "set (actors (mh' ! m)) = insert i (set (actors (mh ! m)))"
    using m' cast by (simp add: mh'_def)
  have Co: "\<And>k. k \<noteq> m \<Longrightarrow> actors (mh' ! k) = actors (mh ! k)" by (simp add: mh'_def)
  have "wf_graph mh' as'"
    unfolding wf_graph_def la lm
  proof (intro conjI allI impI ballI)
    fix a k assume a: "a < length as" and k: "k \<in> set (movies (as' ! a))"
    have old: "k = m \<and> a = i \<or> k \<in> set (movies (as ! a))"
      using k Mi Mo [of a] by (cases "a = i") auto
    then show "k < length mh" using 1 [OF a] m' by blast
    from old have "k = m \<and> a = i \<or> (k < length mh \<and> a \<in> set (actors (mh ! k)))"
      using 1 [OF a] by blast
    then show "a \<in> set (actors (mh' ! k))"
      using Cm Co [of k] by (cases "k = m") auto
  next
    fix k c assume k: "k < length mh" and c: "c \<in> set (actors (mh' ! k))"
    have old: "k = m \<and> c = i \<or> c \<in> set (actors (mh ! k))"
      using c Cm Co [of k] by (cases "k = m") auto
    then show "c < length as" using 2 [OF k] i' by blast
    from old have "k = m \<and> c = i \<or> (c < length as \<and> k \<in> set (movies (as ! c)))"
      using 2 [OF k] by blast
    then show "k \<in> set (movies (as' ! c))"
      using Mi Mo [of c] by (cases "c = i") auto
  qed
  moreover have "i \<in> set (actors (mh' ! m))" using Cm by simp
  ultimately show ?thesis
    unfolding as' mh' using names Mi lm by (simp add: as_def mh_def)
qed

lemma parse_line_blank: "starts_with_space line0 \<Longrightarrow> parse_line st line0 = Inr st"
  by (cases st) (simp add: parse_line_def)

lemma parse_line_header:
  assumes "\<not> starts_with_space line0" "containsMovie (chomp line0)"
  shows "parse_line (s, movieTitle, movie) line0 =
     (case findMovie (chomp line0) of
        Inl e \<Rightarrow> Inl e
      | Inr title \<Rightarrow>
          Inr ((case movie of None \<Rightarrow> s | Some m \<Rightarrow> addMovieToLL s m)
                 \<lparr>movieHeap := movieHeap s @ [\<lparr>movieName = title, actors = []\<rparr>]\<rparr>,
               Some title, Some (length (movieHeap s))))"
  using assms by (cases movie) (simp_all add: parse_line_def addMovieToLL_def split: sum.splits)

lemma parse_line_known:
  assumes "\<not> starts_with_space line0" "\<not> containsMovie (chomp line0)"
    "findActor (headActors s) (chomp line0) = Some actor"
  shows "parse_line (s, movieTitle, movie) line0 =
    (case movie of
       None \<Rightarrow> Inl NullMovie
     | Some m \<Rightarrow> Inr (addActorToMovie (addMovieToActorsMovies s actor m) m actor, movieTitle, movie))"
proof -
  have "isInLL (headActors s) (chomp line0)"
    using assms(3) findActor_None [of "headActors s" "chomp line0"] by (simp add: isInLL_iff)
  then show ?thesis using assms by (simp add: parse_line_def)
qed

lemma parse_line_new:
  assumes "\<not> starts_with_space line0" "\<not> containsMovie (chomp line0)"
    "findActor (headActors s) (chomp line0) = None"
  shows "parse_line (s, movieTitle, movie) line0 =
    (case movie of
       None \<Rightarrow> Inl NullMovie
     | Some m \<Rightarrow>
         Inr (addActorToMovie
               (addMovieToActorsMovies
                 (addActorNode s \<lparr>actorName = chomp line0, movies = [], visited = False, level = 0\<rparr>)
                 (length (headActors s)) m)
               m (length (headActors s)),
              movieTitle, movie))"
proof -
  have "\<not> isInLL (headActors s) (chomp line0)"
    using assms(3) by (simp add: isInLL_iff findActor_None)
  then show ?thesis using assms by (simp add: parse_line_def Let_def)
qed

lemma parse_line_inv:
  assumes inv: "parse_inv st" and step: "parse_line st line0 = Inr st'"
  shows "parse_inv st'"
proof -
  obtain s movieTitle movie where st: "st = (s, movieTitle, movie)" by (cases st)
  have wf: "wf_graph (movieHeap s) (headActors s)"
    and dn: "distinct (map actorName (headActors s))"
    and mv: "\<And>m. movie = Some m \<Longrightarrow> m < length (movieHeap s)"
    using inv by (simp_all add: st parse_inv_def)
  consider (blank) "starts_with_space line0"
    | (header) "\<not> starts_with_space line0" "containsMovie (chomp line0)"
    | (known) actor where "\<not> starts_with_space line0" "\<not> containsMovie (chomp line0)"
        "findActor (headActors s) (chomp line0) = Some actor"
    | (new) "\<not> starts_with_space line0" "\<not> containsMovie (chomp line0)"
        "findActor (headActors s) (chomp line0) = None"
    by (cases "findActor (headActors s) (chomp line0)") auto
  then show ?thesis
  proof cases
    case blank
    then show ?thesis using step inv by (simp add: parse_line_blank)
  next
    case header
    from step obtain title where
      st': "st' = ((case movie of None \<Rightarrow> s | Some m \<Rightarrow> addMovieToLL s m)
                 \<lparr>movieHeap := movieHeap s @ [\<lparr>movieName = title, actors = []\<rparr>]\<rparr>,
               Some title, Some (length (movieHeap s)))"
      unfolding st parse_line_header [OF header] by (auto split: sum.splits)
    have "headActors (case movie of None \<Rightarrow> s | Some m \<Rightarrow> addMovieToLL s m) = headActors s"
      by (cases movie) (simp_all add: addMovieToLL_def)
    then show ?thesis
      unfolding st' parse_inv_def using wf_graph_new_movie [OF wf] dn by simp
  next
    case known
    from step obtain m where m: "movie = Some m"
      and st': "st' = (addActorToMovie (addMovieToActorsMovies s actor m) m actor, movieTitle, movie)"
      unfolding st parse_line_known [OF known] by (auto split: option.splits)
    have an: "actor < length (headActors s)" using findActor_Some [OF known(3)] by simp
    note L = wf_graph_link [OF wf dn an mv [OF m]]
    show ?thesis unfolding st' parse_inv_def using L dn m mv by simp
  next
    case new
    define node where "node = \<lparr>actorName = chomp line0, movies = [], visited = False, level = 0\<rparr>"
    define s1 where "s1 = addActorNode s node"
    from step obtain m where m: "movie = Some m"
      and st': "st' = (addActorToMovie (addMovieToActorsMovies s1 (length (headActors s)) m) m
                        (length (headActors s)), movieTitle, movie)"
      unfolding st parse_line_new [OF new] s1_def node_def by (auto split: option.splits)
    have h1: "headActors s1 = headActors s @ [node]" and m1: "movieHeap s1 = movieHeap s"
      by (simp_all add: s1_def addActorNode_def)
    have wf1: "wf_graph (movieHeap s1) (headActors s1)"
      unfolding h1 m1 using wf_graph_new_actor [OF wf] by (simp add: node_def)
    have dn1: "distinct (map actorName (headActors s1))"
      unfolding h1 using dn new(3) by (simp add: findActor_None node_def)
    have an: "length (headActors s) < length (headActors s1)" by (simp add: h1)
    have mn: "m < length (movieHeap s1)" using mv [OF m] by (simp add: m1)
    note L = wf_graph_link [OF wf1 dn1 an mn]
    show ?thesis unfolding st' parse_inv_def using L dn1 m mn by simp
  qed
qed

lemma parse_loop_inv: "parse_inv st \<Longrightarrow> parse_loop st ls = Inr st' \<Longrightarrow> parse_inv st'"
proof (induction ls arbitrary: st)
  case Nil
  then show ?case by simp
next
  case (Cons l ls)
  then show ?case by (auto split: sum.splits dest: parse_line_inv)
qed

lemma parse_inv_init: "parse_inv (empty_store, None, None)"
  by (simp add: parse_inv_def empty_store_def wf_graph_def)

lemma parseFile_inv:
  assumes "parseFile file = Inr s"
  shows "wf_graph (movieHeap s) (headActors s) \<and> distinct (map actorName (headActors s))"
proof -
  from assms obtain s1 mt mv where
    loop: "parse_loop (empty_store, None, None) (getlines file) = Inr (s1, mt, mv)"
    and s: "headActors s = headActors s1" "movieHeap s = movieHeap s1"
    by (auto simp: parseFile_def addMovieToLL_def split: sum.splits option.splits)
  have "parse_inv (s1, mt, mv)" using parse_loop_inv [OF parse_inv_init loop] .
  then show ?thesis using s by (simp add: parse_inv_def)
qed

subsection \<open>Lines\<close>

lemma chomp_newline: "chomp (name @ [newline]) = name"
  by (simp add: chomp_def)

lemma containsMovie_iff: "containsMovie line \<longleftrightarrow> CHR '':'' \<in> set line"
  by (induction line) auto

lemma set_chomp_colon: "CHR '':'' \<in> set (chomp line) \<longleftrightarrow> CHR '':'' \<in> set line"
proof (cases "line \<noteq> [] \<and> last line = newline")
  case True
  then have "line = butlast line @ [newline]"
    by (metis append_butlast_last_id)
  then have "set line = insert newline (set (butlast line))"
    by (metis Un_insert_right append_Nil2 list.simps(15) set_append)
  then show ?thesis using True by (auto simp: chomp_def newline_def)
next
  case False
  then show ?thesis by (auto simp: chomp_def)
qed

lemma findMovie_split:
  assumes "CHR '':'' \<notin> set pre"
  shows "findMovie (pre @ CHR '':'' # c # title) = Inr title"
proof -
  have "dropWhile (\<lambda>c. c \<noteq> CHR '':'') (pre @ CHR '':'' # c # title) = CHR '':'' # c # title"
    using assms by (subst dropWhile_append2) auto
  then show ?thesis by (simp add: findMovie_def)
qed

subsection \<open>What a search leaves behind\<close>

lemma clear_all_set_visited [simp]: "clear_all (set_visited as c v) = clear_all as"
  by (simp add: clear_all_map set_visited_def map_update_same)

lemma clear_all_set_level [simp]: "clear_all (set_level as c l) = clear_all as"
  by (simp add: clear_all_map set_level_def map_update_same)

lemma clear_all_idem [simp]: "clear_all (clear_all as) = clear_all as"
  by (simp add: clear_all_map)

lemma clear_all_cong:
  assumes "map actorName as' = map actorName as" "map movies as' = map movies as"
  shows "clear_all as' = clear_all as"
proof (rule nth_equalityI)
  show len: "length (clear_all as') = length (clear_all as)"
    using assms(1) by (metis clear_all_map length_map)
  fix i assume "i < length (clear_all as')"
  then have i: "i < length as'" "i < length as" using len by (simp_all add: clear_all_map)
  have "actorName (as' ! i) = actorName (as ! i)" "movies (as' ! i) = movies (as ! i)"
    using assms i by (metis nth_map)+
  then show "clear_all as' ! i = clear_all as ! i"
    using i by (simp add: clear_all_map)
qed

lemma scan_cast_clear:
  "clear_all (case_sum snd fst (scan_cast t x co (as, q))) = clear_all as"
  by (induction co arbitrary: as q) (simp_all add: Let_def)

lemma scan_movies_clear:
  "clear_all (case_sum snd fst (scan_movies mh t x ml (as, q))) = clear_all as"
proof (induction ml arbitrary: as q)
  case Nil
  show ?case by simp
next
  case (Cons m ml)
  note C = scan_cast_clear [where t = t and x = x and co = "actors (mh ! m)" and as = as and q = q]
  show ?case
  proof (cases "scan_cast t x (actors (mh ! m)) (as, q)")
    case (Inl p)
    then show ?thesis using C by simp
  next
    case (Inr p)
    obtain as1 q1 where p: "p = (as1, q1)" by (cases p)
    have "clear_all as1 = clear_all as" using C Inr p by simp
    then show ?thesis using Cons.IH [of as1 q1] Inr p by simp
  qed
qed

lemma bfs_loop_clear:
  assumes "bfs_loop mh t st = Some res"
  shows "clear_all (snd res) = clear_all (fst st)"
proof (rule bfs_loop.raw_induct
    [where P = "\<lambda>mh t st res. clear_all (snd res) = clear_all (fst st)", OF _ assms])
  fix loop mh t st res
  assume IH: "\<And>mh t st res. loop mh t st = Some res \<Longrightarrow> clear_all (snd res) = clear_all (fst st)"
    and body: "(case snd st of
        [] \<Rightarrow> Some (- 1, fst st)
      | a # q \<Rightarrow>
          (case scan_movies mh t a (movies (fst st ! a)) (fst st, q) of
             Inl r \<Rightarrow> Some r
           | Inr st' \<Rightarrow> loop mh t st')) = Some res"
  show "clear_all (snd res) = clear_all (fst st)"
  proof (cases "snd st")
    case Nil
    then show ?thesis using body by auto
  next
    case (Cons x q)
    note C = scan_movies_clear [where mh = mh and t = t and x = x
        and ml = "movies (fst st ! x)" and as = "fst st" and q = q]
    show ?thesis
    proof (cases "scan_movies mh t x (movies (fst st ! x)) (fst st, q)")
      case (Inl p)
      then show ?thesis using body Cons C by auto
    next
      case (Inr p)
      have "loop mh t p = Some res" using body Cons Inr by simp
      then have "clear_all (snd res) = clear_all (fst p)" by (rule IH)
      then show ?thesis using C Inr by simp
    qed
  qed
qed

subsection \<open>Two separate movies\<close>

lemma apart_no_path: "hops (headActors apart_store) k 0 v \<Longrightarrow> v = 0"
proof (induction k arbitrary: v)
  case 0
  then show ?case by simp
next
  case (Suc k)
  then obtain c where "hops (headActors apart_store) k 0 c" "shares_movie (headActors apart_store) c v"
    by auto
  then have "shares_movie (headActors apart_store) 0 v" using Suc.IH by blast
  then show ?case
    by (cases "v = 0") (auto simp: shares_movie_def apart_store_def less_Suc_eq numeral_2_eq_2)
qed

subsection \<open>Levels stay below the number of actors\<close>

lemma shortest_prefix:
  "shortest as a b d \<Longrightarrow> b < length as \<Longrightarrow> j \<le> d \<Longrightarrow> \<exists>u < length as. shortest as a u j"
proof (induction d arbitrary: b)
  case 0
  then show ?case by auto
next
  case (Suc k)
  show ?case
  proof (cases "j = Suc k")
    case True
    then show ?thesis using Suc.prems by blast
  next
    case False
    then have j: "j \<le> k" using Suc.prems by simp
    from shortest_pred [OF Suc.prems(1)] obtain u where "u < length as" "shortest as a u k"
      by blast
    then show ?thesis using Suc.IH j by blast
  qed
qed

lemma shortest_bound:
  assumes "shortest as a b d" "b < length as"
  shows "d < length as"
proof -
  define f where "f j = (SOME u. u < length as \<and> shortest as a u j)" for j
  have ex: "\<exists>u. u < length as \<and> shortest as a u j" if "j \<le> d" for j
    using shortest_prefix [OF assms that] by blast
  have f: "f j < length as \<and> shortest as a (f j) j" if "j \<le> d" for j
    unfolding f_def by (rule someI_ex [OF ex [OF that]])
  have "inj_on f {..d}"
  proof (rule inj_onI)
    fix i j assume i: "i \<in> {..d}" and j: "j \<in> {..d}" and eq: "f i = f j"
    have "shortest as a (f i) i" using f [of i] i by simp
    moreover have "shortest as a (f i) j" using f [of j] j eq by simp
    ultimately show "i = j" by (rule shortest_unique)
  qed
  moreover have "f ` {..d} \<subseteq> {..<length as}"
  proof
    fix u assume "u \<in> f ` {..d}"
    then obtain j where "j \<le> d" "u = f j" by auto
    then show "u \<in> {..<length as}" using f [of j] by simp
  qed
  ultimately have "card {..d} \<le> card {..<length as}"
    by (meson card_inj_on_le finite_lessThan)
  then show ?thesis by simp
qed

lemma level_increment_bounded:
  assumes "bfs_inv as0 a t (as, x # q)" "shares_movie as0 x c" "\<not> visited (as ! c)"
  shows "0 \<le> level (as ! x) \<and> level (as ! x) + 1 < int (length as0)"
proof -
  have xn: "x < length as0" and vx: "visited (as ! x)" and cn: "c < length as0"
    using bfs_invD(6) [OF assms(1), of x] assms(2) by (simp_all add: shares_movie_def)
  have cl: "c < length as" using cn bfs_invD(1) [OF assms(1)] by simp
  from bfs_invD(5) [OF assms(1) xn vx] obtain dx where dx: "level (as ! x) = int dx" by blast
  have cx: "c \<noteq> x" using vx assms(3) by blast
  from discover [OF assms] obtain d where
    d: "level (set_level (set_visited as c True) c (level (set_visited as c True ! x) + 1) ! c) = int d"
      "shortest as0 a c d"
    by blast
  have "int d = level (as ! x) + 1" using d(1) cl by (simp add: level_set_level)
  moreover have "d < length as0" using shortest_bound [OF d(2) cn] .
  ultimately show ?thesis using dx by simp
qed

lemma BFS_result_range:
  assumes "wf_graph (movieHeap s) (headActors s)"
    and "a < length (headActors s)" and "t < length (headActors s)"
    and "BFS s a t = Some (r, s')"
  shows "- 1 \<le> r \<and> r < int (length (headActors s))"
proof -
  from BFS_total [OF assms(1-3)] assms(4) have "bfs_result (headActors s) a t r" by simp
  then show ?thesis
    unfolding bfs_result_def using shortest_bound [OF _ assms(3)] by auto
qed

subsection \<open>Lines of a stream\<close>

lemma getlines_from_nonempty: "[] \<notin> set (getlines_from cur cs)"
  by (induction cs arbitrary: cur) auto

lemma getlines_nonempty: "[] \<notin> set (getlines file)"
  by (simp add: getlines_def getlines_from_nonempty)

subsection \<open>The scenario of the specification\<close>

lemma scenario_run:
  "main scenario_file
     (''Russell Crowe'' @ [newline] @ ''Kevin Bacon'' @ [newline] @ ''Tom Hanks'' @ [newline]) =
   Some (Inr ([Score 2, Score 0, ActorNotFound], 1))"
  by code_simp

subsection \<open>The whole run returns\<close>

lemma movies_clear_all: "map movies (clear_all as) = map movies as"
  by (simp add: clear_all_map comp_def)

lemma wf_graph_cong:
  assumes eq: "map movies as' = map movies as" and wf: "wf_graph mh as"
  shows "wf_graph mh as'"
proof -
  have len: "length as' = length as" using eq by (metis length_map)
  have mv: "\<And>i. i < length as \<Longrightarrow> movies (as' ! i) = movies (as ! i)"
    using eq len by (metis nth_map)
  show ?thesis
    unfolding wf_graph_def len
  proof (intro conjI allI impI ballI)
    fix a k assume "a < length as" "k \<in> set (movies (as' ! a))"
    then have "a < length as" "k \<in> set (movies (as ! a))" using mv by simp_all
    then show "k < length mh" "a \<in> set (actors (mh ! k))"
      using wf unfolding wf_graph_def by blast+
  next
    fix k c assume "k < length mh" "c \<in> set (actors (mh ! k))"
    then have c: "c < length as" "k \<in> set (movies (as ! c))"
      using wf unfolding wf_graph_def by blast+
    then show "c < length as" "k \<in> set (movies (as' ! c))" using mv by simp_all
  qed
qed

lemma names_clear_all: "map actorName (clear_all as) = map actorName as"
  by (simp add: clear_all_map comp_def)

lemma same_graph_refl: "same_graph s s"
  by (simp add: same_graph_def)

lemma same_graph_trans: "same_graph s0 s1 \<Longrightarrow> same_graph s1 s2 \<Longrightarrow> same_graph s0 s2"
  by (simp add: same_graph_def)

lemma same_graph_inv:
  assumes "parseFile dataset = Inr s0" "same_graph s0 s"
  shows "wf_graph (movieHeap s) (headActors s) \<and> distinct (map actorName (headActors s)) \<and>
         length (headActors s) = length (headActors s0)"
proof -
  have eq: "map actorName (headActors s) = map actorName (headActors s0)"
    "map movies (headActors s) = map movies (headActors s0)" "movieHeap s = movieHeap s0"
    using assms(2) by (simp_all add: same_graph_def)
  have "length (headActors s) = length (headActors s0)" using eq(1) by (metis length_map)
  then show ?thesis
    using parseFile_inv [OF assms(1)] wf_graph_cong [OF eq(2)] eq(1,3) by simp
qed

lemma BFS_keeps_graph:
  assumes "BFS s a t = Some (r, s')"
  shows "same_graph s s'"
proof (cases "a = t")
  case True
  then show ?thesis using assms by (auto simp: BFS_def same_graph_def)
next
  case False
  let ?init = "(set_level (set_visited (clear_all (headActors s)) a True) a 0, enqueue [] a)"
  from assms False obtain as' where
    loop: "bfs_loop (movieHeap s) t ?init = Some (r, as')" and s': "s' = s\<lparr>headActors := as'\<rparr>"
    by (auto simp: BFS_def Let_def split: option.splits)
  have "clear_all as' = clear_all (headActors s)"
    using bfs_loop_clear [OF loop] by simp
  then have "map movies as' = map movies (headActors s)"
    "map actorName as' = map actorName (headActors s)"
    by (metis movies_clear_all, metis names_clear_all)
  then show ?thesis using s' by (simp add: same_graph_def)
qed

lemma query_keeps_graph:
  assumes "query (s, e) line = Some (out, s', e')"
  shows "same_graph s s'"
  using assms BFS_keeps_graph
  by (auto simp: query_def same_graph_refl split: option.splits)

lemma query_total:
  assumes "wf_graph (movieHeap s) (headActors s)"
  shows "\<exists>out s' e'. query (s, e) line = Some (out, s', e') \<and>
           wf_graph (movieHeap s') (headActors s')"
proof (cases "findActor (headActors s) (chomp line)")
  case None
  then show ?thesis using assms by (simp add: query_def)
next
  case (Some actor)
  show ?thesis
  proof (cases "findActor (headActors s) ''Kevin Bacon''")
    case None
    then show ?thesis using Some assms by (simp add: query_def)
  next
    case bacon: (Some bacon)
    have "actor < length (headActors s)" "bacon < length (headActors s)"
      using findActor_Some Some bacon by blast+
    from BFS_total [OF assms this(2,1)] obtain r s' where r: "BFS s bacon actor = Some (r, s')"
      by blast
    have "wf_graph (movieHeap s') (headActors s')"
      using BFS_keeps_graph [OF r] wf_graph_cong [OF _ assms] by (simp add: same_graph_def)
    then show ?thesis using Some bacon r by (simp add: query_def)
  qed
qed

lemma queries_total:
  "wf_graph (movieHeap s) (headActors s) \<Longrightarrow> \<exists>res. queries (s, e) ls = Some res"
proof (induction ls arbitrary: s e)
  case Nil
  then show ?case by simp
next
  case (Cons l ls)
  from query_total [OF Cons.prems] obtain out s' e' where
    q: "query (s, e) l = Some (out, s', e')" "wf_graph (movieHeap s') (headActors s')"
    by blast
  from Cons.IH [OF q(2)] obtain res where "queries (s', e') ls = Some res" by blast
  then show ?case using q(1) by (cases res) auto
qed

lemma main_total: "\<exists>res. main dataset stdin = Some res"
proof (cases "parseFile dataset")
  case (Inl e)
  then show ?thesis by (simp add: main_def)
next
  case (Inr s)
  from queries_total [of s 0 "getlines stdin"] parseFile_inv [OF Inr]
  obtain res where "queries (s, 0) (getlines stdin) = Some res" by blast
  then show ?thesis using Inr by (cases res) (auto simp: main_def)
qed

section \<open>Properties of the specification\<close>

text \<open>
  C1. Take the store the parser built, as any number of earlier searches left it, and an
  anchor and a target in it that are joined by some path of shared movies. Then \<open>BFS\<close>
  returns, and the number it returns is the length of a shortest such path: a path of that
  many hops exists and none is shorter.
\<close>

theorem BFS_shortest_path:
  assumes "parseFile dataset = Inr s0" and "same_graph s0 s"
    and "anchor < length (headActors s)" and "target < length (headActors s)"
    and "hops (headActors s) k anchor target"
  shows "\<exists>d s'. BFS s anchor target = Some (int d, s') \<and>
           hops (headActors s) d anchor target \<and>
           (\<forall>j. hops (headActors s) j anchor target \<longrightarrow> d \<le> j)"
proof -
  from BFS_total [OF _ assms(3,4)] same_graph_inv [OF assms(1,2)]
  obtain r s' where r: "BFS s anchor target = Some (r, s')"
    "bfs_result (headActors s) anchor target r"
    by blast
  from r(2) assms(5) obtain d where "r = int d" "shortest (headActors s) anchor target d"
    unfolding bfs_result_def by blast
  then show ?thesis using r(1) unfolding shortest_def by blast
qed

theorem BFS_shortest_path_witness:
  "parseFile scenario_file = Inr scenario_store \<and>
   same_graph scenario_store scenario_searched \<and>
   hops (headActors scenario_searched) 2 2 0 \<and>
   (\<exists>d s'. BFS scenario_searched 2 0 = Some (int d, s') \<and>
           hops (headActors scenario_searched) d 2 0 \<and>
           (\<forall>j. hops (headActors scenario_searched) j 2 0 \<longrightarrow> d \<le> j))"
proof -
  have 1: "parseFile scenario_file = Inr scenario_store" by code_simp
  have 2: "same_graph scenario_store scenario_searched" by code_simp
  have 3: "2 < length (headActors scenario_searched)" by code_simp
  have 4: "0 < length (headActors scenario_searched)" by code_simp
  have 5: "hops (headActors scenario_searched) 2 2 0" by code_simp
  show ?thesis using 1 2 5 BFS_shortest_path [OF 1 2 3 4 5] by blast
qed

text \<open>
  C2. \<open>BFS\<close> of an actor to itself, the same node and not only the same name, returns 0
  at once and leaves the store, and with it every \<open>visited\<close> and \<open>level\<close>, as it was.
\<close>

theorem BFS_same_actor: "BFS s a a = Some (0, s)"
  by (simp add: BFS_def)

text \<open>
  C3. Take the store the parser built, as any number of earlier searches left it, and two
  different actors in it with no path of shared movies between them. Then \<open>BFS\<close> returns
  \<open>-1\<close>; when the first of the two is Kevin Bacon, the driver answers the query for the
  second with "Score: No Bacon!" and leaves \<open>errSeen\<close> as it was.
\<close>

theorem BFS_unreachable:
  assumes "parseFile dataset = Inr s0" and "same_graph s0 s"
    and "a < length (headActors s)" and "b < length (headActors s)" and "a \<noteq> b"
    and "\<forall>k. \<not> hops (headActors s) k a b"
  shows "\<exists>s'. BFS s a b = Some (- 1, s') \<and>
           (actorName (headActors s ! a) = ''Kevin Bacon'' \<longrightarrow>
              query (s, errSeen) (actorName (headActors s ! b) @ [newline])
                = Some (NoBacon, s', errSeen))"
proof -
  note inv = same_graph_inv [OF assms(1,2)]
  from BFS_total [OF _ assms(3,4)] inv
  obtain r s' where r: "BFS s a b = Some (r, s')" "bfs_result (headActors s) a b r"
    by blast
  have r1: "r = - 1" using r(2) assms(6) unfolding bfs_result_def shortest_def by blast
  have fb: "findActor (headActors s) (actorName (headActors s ! b)) = Some b"
    using findActor_distinct inv assms(4) by blast
  have "query (s, errSeen) (actorName (headActors s ! b) @ [newline]) = Some (NoBacon, s', errSeen)"
    if "actorName (headActors s ! a) = ''Kevin Bacon''"
  proof -
    have "findActor (headActors s) ''Kevin Bacon'' = Some a"
      using findActor_distinct [of "headActors s" a] inv assms(3) that by simp
    then show ?thesis using fb r(1) r1 by (simp add: query_def chomp_newline)
  qed
  then show ?thesis using r(1) r1 by blast
qed

theorem BFS_unreachable_witness:
  "parseFile apart_file = Inr apart_store \<and>
   (\<forall>k. \<not> hops (headActors apart_store) k 0 1) \<and>
   (\<exists>s'. BFS apart_store 0 1 = Some (- 1, s') \<and>
      query (apart_store, 0) (''Tom Hanks'' @ [newline]) = Some (NoBacon, s', 0))"
proof -
  have 1: "parseFile apart_file = Inr apart_store" by code_simp
  have 2: "same_graph apart_store apart_store" by code_simp
  have 3: "0 < length (headActors apart_store)" by code_simp
  have 4: "1 < length (headActors apart_store)" by code_simp
  have 5: "(0::nat) \<noteq> 1" by simp
  have 6: "\<forall>k. \<not> hops (headActors apart_store) k 0 1" using apart_no_path by fastforce
  have 7: "actorName (headActors apart_store ! 0) = ''Kevin Bacon''" by code_simp
  have 8: "actorName (headActors apart_store ! 1) = ''Tom Hanks''" by code_simp
  show ?thesis using 1 6 7 BFS_unreachable [OF 1 2 3 4 5 6, of 0] unfolding 8 by blast
qed

text \<open>
  C4. The specification asks that no cast list holds the same actor twice, and so does the
  comment of \<open>addActorToMovie\<close>. The function stops
  comparing names one entry before the end of the cast, so an actor listed twice in a row
  under one movie is in its cast twice: here the cast of "X" is A, A.
\<close>

theorem cast_holds_actor_twice:
  "parseFile (''Movie: X'' @ [newline] @ ''A'' @ [newline] @ ''A'' @ [newline]) =
     Inr \<lparr>headActors = [\<lparr>actorName = ''A'', movies = [0, 0], visited = False, level = 0\<rparr>],
          movieHeap = [\<lparr>movieName = ''X'', actors = [0, 0]\<rparr>],
          headMovies = [0]\<rparr>"
  by code_simp

text \<open>
  C5, as amended. When the name on an actor line is already in the store, in any state the
  parser can reach with a current movie, no actor is added and the names stay pairwise
  different; the current movie is appended to the membership list of that actor, whether
  or not it is there already, and the actor is in the cast of the movie afterwards.
\<close>

theorem known_actor_reused:
  assumes "parse_loop (empty_store, None, None) ls = Inr (s, movieTitle, Some m)"
    and "\<not> starts_with_space line" and "\<not> containsMovie (chomp line)"
    and "findActor (headActors s) (chomp line) = Some i"
  shows "\<exists>s'. parse_line (s, movieTitle, Some m) line = Inr (s', movieTitle, Some m) \<and>
           map actorName (headActors s') = map actorName (headActors s) \<and>
           distinct (map actorName (headActors s')) \<and>
           movies (headActors s' ! i) = movies (headActors s ! i) @ [m] \<and>
           i \<in> set (actors (movieHeap s' ! m))"
proof -
  have inv: "parse_inv (s, movieTitle, Some m)"
    using parse_loop_inv [OF parse_inv_init assms(1)] .
  then have wf: "wf_graph (movieHeap s) (headActors s)"
    and dn: "distinct (map actorName (headActors s))" and m: "m < length (movieHeap s)"
    by (simp_all add: parse_inv_def)
  have i: "i < length (headActors s)" using findActor_Some [OF assms(4)] by simp
  note L = wf_graph_link [OF wf dn i m]
  show ?thesis
    unfolding parse_line_known [OF assms(2,3,4)] using L dn by simp
qed

theorem known_actor_reused_witness:
  "\<exists>s'. parse_line
           (\<lparr>headActors = [\<lparr>actorName = ''A'', movies = [0], visited = False, level = 0\<rparr>,
                           \<lparr>actorName = ''B'', movies = [0], visited = False, level = 0\<rparr>],
             movieHeap = [\<lparr>movieName = ''X'', actors = [0, 1]\<rparr>], headMovies = []\<rparr>,
            Some ''X'', Some 0) (''A'' @ [newline]) = Inr (s', Some ''X'', Some 0) \<and>
         map actorName (headActors s') = [''A'', ''B''] \<and>
         distinct (map actorName (headActors s')) \<and>
         movies (headActors s' ! 0) = [0, 0] \<and>
         0 \<in> set (actors (movieHeap s' ! 0))"
proof -
  let ?s = "\<lparr>headActors = [\<lparr>actorName = ''A'', movies = [0], visited = False, level = 0\<rparr>,
                     \<lparr>actorName = ''B'', movies = [0], visited = False, level = 0\<rparr>],
       movieHeap = [\<lparr>movieName = ''X'', actors = [0, 1]\<rparr>], headMovies = []\<rparr>"
  let ?ls = "[''Movie: X'' @ [newline], ''A'' @ [newline], ''B'' @ [newline]]"
  have 1: "parse_loop (empty_store, None, None) ?ls = Inr (?s, Some ''X'', Some 0)"
    by code_simp
  have 2: "\<not> starts_with_space (''A'' @ [newline])" by code_simp
  have 3: "\<not> containsMovie (chomp (''A'' @ [newline]))" by code_simp
  have 4: "findActor (headActors ?s) (chomp (''A'' @ [newline])) = Some 0" by code_simp
  show ?thesis using known_actor_reused [OF 1 2 3 4] by simp
qed

theorem membership_holds_movie_twice:
  "parseFile (''Movie: X'' @ [newline] @ ''A'' @ [newline] @ ''B'' @ [newline] @ ''A'' @ [newline]) =
     Inr \<lparr>headActors = [\<lparr>actorName = ''A'', movies = [0, 0], visited = False, level = 0\<rparr>,
                        \<lparr>actorName = ''B'', movies = [0], visited = False, level = 0\<rparr>],
          movieHeap = [\<lparr>movieName = ''X'', actors = [0, 1]\<rparr>],
          headMovies = [0]\<rparr>"
  by code_simp

text \<open>
  C6. Take the store the parser built, as any number of earlier searches left it, and any
  two actors in it. The search from the first for the second and the search from the second
  for the first both return, and they return the same number.
\<close>

theorem BFS_symmetric:
  assumes "parseFile dataset = Inr s0" and "same_graph s0 s"
    and "a < length (headActors s)" and "b < length (headActors s)"
  shows "\<exists>r s1 s2. BFS s a b = Some (r, s1) \<and> BFS s b a = Some (r, s2)"
proof -
  note inv = same_graph_inv [OF assms(1,2)]
  from BFS_total [OF _ assms(3,4)] inv
  obtain r s1 where r: "BFS s a b = Some (r, s1)" "bfs_result (headActors s) a b r"
    by blast
  from BFS_total [OF _ assms(4,3)] inv
  obtain r' s2 where r': "BFS s b a = Some (r', s2)" "bfs_result (headActors s) b a r'"
    by blast
  have "r = r'"
  proof (cases "\<exists>k. hops (headActors s) k a b")
    case True
    then obtain k where k: "hops (headActors s) k a b" by blast
    then have "hops (headActors s) k b a" by (rule hops_sym)
    with k r(2) r'(2) obtain d d' where
      d: "r = int d" "shortest (headActors s) a b d" "r' = int d'" "shortest (headActors s) b a d'"
      unfolding bfs_result_def by blast
    then show ?thesis using shortest_unique [OF d(2) shortest_sym [OF d(4)]] by simp
  next
    case False
    then have "\<forall>k. \<not> hops (headActors s) k b a" using hops_sym by blast
    then show ?thesis using False r(2) r'(2) unfolding bfs_result_def shortest_def by blast
  qed
  then show ?thesis using r(1) r'(1) by blast
qed

theorem BFS_symmetric_witness:
  "\<exists>r s1 s2. BFS scenario_searched 2 0 = Some (r, s1) \<and> BFS scenario_searched 0 2 = Some (r, s2)"
proof -
  have 1: "parseFile scenario_file = Inr scenario_store" by code_simp
  have 2: "same_graph scenario_store scenario_searched" by code_simp
  have 3: "2 < length (headActors scenario_searched)" by code_simp
  have 4: "0 < length (headActors scenario_searched)" by code_simp
  show ?thesis using BFS_symmetric [OF 1 2 3 4] .
qed

text \<open>
  C7, as amended. A line that does not start with white space is taken for a movie header
  exactly when it contains \<open>':'\<close>: without one the parser keeps its current movie and
  makes no new one. When at
  least one character follows the first \<open>':'\<close> of the line without its newline, the title
  is everything after that character, and the parser makes it the name of a new movie with
  an empty cast, which becomes the current one.
\<close>

theorem header_line_title:
  assumes "\<not> starts_with_space line"
  shows "(containsMovie (chomp line) \<longleftrightarrow> CHR '':'' \<in> set line) \<and>
         (\<forall>pre c title. chomp line = pre @ CHR '':'' # c # title \<and> CHR '':'' \<notin> set pre \<longrightarrow>
            findMovie (chomp line) = Inr title \<and>
            (\<exists>s'. parse_line (s, movieTitle, movie) line =
                     Inr (s', Some title, Some (length (movieHeap s))) \<and>
                   movieHeap s' = movieHeap s @ [\<lparr>movieName = title, actors = []\<rparr>])) \<and>
         (CHR '':'' \<notin> set line \<longrightarrow>
            parse_line (s, movieTitle, movie) line = Inl NullMovie \<or>
            (\<exists>s'. parse_line (s, movieTitle, movie) line = Inr (s', movieTitle, movie) \<and>
                   length (movieHeap s') = length (movieHeap s)))"
proof (intro conjI allI impI)
  show "containsMovie (chomp line) \<longleftrightarrow> CHR '':'' \<in> set line"
    by (simp add: containsMovie_iff set_chomp_colon)
next
  fix pre c title
  assume h: "chomp line = pre @ CHR '':'' # c # title \<and> CHR '':'' \<notin> set pre"
  then show "findMovie (chomp line) = Inr title" by (simp add: findMovie_split)
  have "containsMovie (chomp line)" using h by (simp add: containsMovie_iff)
  from parse_line_header [OF assms this, of s movieTitle movie]
  show "\<exists>s'. parse_line (s, movieTitle, movie) line =
                     Inr (s', Some title, Some (length (movieHeap s))) \<and>
                   movieHeap s' = movieHeap s @ [\<lparr>movieName = title, actors = []\<rparr>]"
    using h by (simp add: findMovie_split)
next
  assume "CHR '':'' \<notin> set line"
  then have nc: "\<not> containsMovie (chomp line)"
    by (simp add: containsMovie_iff set_chomp_colon)
  show "parse_line (s, movieTitle, movie) line = Inl NullMovie \<or>
        (\<exists>s'. parse_line (s, movieTitle, movie) line = Inr (s', movieTitle, movie) \<and>
               length (movieHeap s') = length (movieHeap s))"
  proof (cases movie)
    case None
    then show ?thesis
      using parse_line_known [OF assms nc, of s] parse_line_new [OF assms nc, of s]
      by (cases "findActor (headActors s) (chomp line)") simp_all
  next
    case (Some m)
    have len: "\<And>s i. length (movieHeap (addActorToMovie (addMovieToActorsMovies s i m) m i))
        = length (movieHeap s)"
      by (simp add: addActorToMovie_def addMovieToActorsMovies_def)
    show ?thesis
      using parse_line_known [OF assms nc, of s] parse_line_new [OF assms nc, of s] Some
      by (cases "findActor (headActors s) (chomp line)") (simp_all add: len addActorNode_def)
  qed
qed

theorem header_line_title_witness:
  "\<not> starts_with_space (''Movie: X-Men'' @ [newline]) \<and>
   findMovie (chomp (''Movie: X-Men'' @ [newline])) = Inr ''X-Men'' \<and>
   (\<exists>s'. parse_line (empty_store, None, None) (''Movie: X-Men'' @ [newline]) =
            Inr (s', Some ''X-Men'', Some 0) \<and>
          movieHeap s' = [\<lparr>movieName = ''X-Men'', actors = []\<rparr>])"
proof -
  let ?line = "''Movie: X-Men'' @ [newline]"
  have 1: "\<not> starts_with_space ?line" by code_simp
  have 2: "chomp ?line = ''Movie'' @ CHR '':'' # CHR '' '' # ''X-Men'' \<and> CHR '':'' \<notin> set ''Movie''"
    by code_simp
  have 3: "movieHeap empty_store = []" by (simp add: empty_store_def)
  from header_line_title [OF 1, of empty_store None None] 2
  have "findMovie (chomp ?line) = Inr ''X-Men'' \<and>
        (\<exists>s'. parse_line (empty_store, None, None) ?line =
                 Inr (s', Some ''X-Men'', Some (length (movieHeap empty_store))) \<and>
               movieHeap s' = movieHeap empty_store @ [\<lparr>movieName = ''X-Men'', actors = []\<rparr>])"
    by blast
  then show ?thesis using 1 unfolding 3 by simp
qed

theorem header_without_title:
  "\<not> starts_with_space (''X:'' @ [newline]) \<and>
   containsMovie (chomp (''X:'' @ [newline])) \<and>
   findMovie (chomp (''X:'' @ [newline])) = Inl OutOfBounds \<and>
   parse_line (empty_store, None, None) (''X:'' @ [newline]) = Inl OutOfBounds"
  by code_simp

text \<open>
  C8, as amended. When no actor of the store is named Kevin Bacon, a query for a name that
  is in the store is answered with "Score: No Bacon!" and a query for a name that is not
  with the message that the actor could not be found; either way the store, with every
  \<open>visited\<close> and \<open>level\<close>, is left as it was: no search has run.
\<close>

theorem query_without_anchor:
  assumes "findActor (headActors s) ''Kevin Bacon'' = None"
  shows "query (s, errSeen) line =
     Some (case findActor (headActors s) (chomp line) of
             None \<Rightarrow> (ActorNotFound, s, 1)
           | Some actor \<Rightarrow> (NoBacon, s, errSeen))"
  using assms by (simp add: query_def split: option.splits)

theorem query_without_anchor_witness:
  "findActor (headActors baconless_store) ''Kevin Bacon'' = None \<and>
   query (baconless_store, 0) (''Tom Hanks'' @ [newline]) = Some (NoBacon, baconless_store, 0)"
proof -
  have 1: "findActor (headActors baconless_store) ''Kevin Bacon'' = None" by code_simp
  have 2: "findActor (headActors baconless_store) (chomp (''Tom Hanks'' @ [newline])) = Some 0"
    by code_simp
  show ?thesis using 1 query_without_anchor [OF 1, of 0 "''Tom Hanks'' @ [newline]"]
    unfolding 2 by simp
qed

theorem query_unknown_without_anchor:
  "parseFile baconless_file = Inr baconless_store \<and>
   findActor (headActors baconless_store) ''Kevin Bacon'' = None \<and>
   query (baconless_store, 0) (''Meg Ryan'' @ [newline]) = Some (ActorNotFound, baconless_store, 1)"
  by code_simp

text \<open>
  C9. A search between two different actors starts by clearing every actor: \<open>BFS\<close> on a
  store is \<open>BFS\<close> on the store with every \<open>visited\<close> false and every \<open>level\<close> \<open>-1\<close>.
  So the number it returns is the same on any two stores that differ in \<open>visited\<close> and
  \<open>level\<close> only, whatever an earlier search left there; the store it returns differs from
  the one it was given in these fields only, and the same query asked again on the store
  it returned gives the same answer and the same store.
\<close>

theorem BFS_query_independent:
  "(\<forall>cur \<in> set (clear_all (headActors s)). \<not> visited cur \<and> level cur = - 1) \<and>
   (a \<noteq> t \<longrightarrow> BFS s a t = BFS (s\<lparr>headActors := clear_all (headActors s)\<rparr>) a t) \<and>
   (same_graph s s' \<longrightarrow> map_option fst (BFS s' a t) = map_option fst (BFS s a t)) \<and>
   (BFS s a t = Some (r, s1) \<longrightarrow> same_graph s s1 \<and> BFS s1 a t = Some (r, s1))"
proof (intro conjI impI)
  show "\<forall>cur \<in> set (clear_all (headActors s)). \<not> visited cur \<and> level cur = - 1"
    by (auto simp: clear_all_map)
next
  assume "a \<noteq> t"
  then show "BFS s a t = BFS (s\<lparr>headActors := clear_all (headActors s)\<rparr>) a t"
    by (simp add: BFS_def Let_def split: option.splits)
next
  assume sg: "same_graph s s'"
  have "movieHeap s' = movieHeap s" using sg by (simp add: same_graph_def)
  moreover have "clear_all (headActors s') = clear_all (headActors s)"
    by (rule clear_all_cong) (use sg in \<open>simp_all add: same_graph_def\<close>)
  ultimately show "map_option fst (BFS s' a t) = map_option fst (BFS s a t)"
    by (simp add: BFS_def Let_def split: option.splits)
next
  assume "BFS s a t = Some (r, s1)"
  then show "same_graph s s1" by (rule BFS_keeps_graph)
next
  assume h: "BFS s a t = Some (r, s1)"
  show "BFS s1 a t = Some (r, s1)"
  proof (cases "a = t")
    case True
    then show ?thesis using h by (simp add: BFS_def)
  next
    case False
    let ?init = "(set_level (set_visited (clear_all (headActors s)) a True) a 0, enqueue [] a)"
    from h False obtain as' where
      loop: "bfs_loop (movieHeap s) t ?init = Some (r, as')" and s1: "s1 = s\<lparr>headActors := as'\<rparr>"
      by (auto simp: BFS_def Let_def split: option.splits)
    have "clear_all as' = clear_all (headActors s)"
      using bfs_loop_clear [OF loop] by simp
    then show ?thesis using False loop s1 by (simp add: BFS_def Let_def)
  qed
qed

theorem BFS_query_independent_witness:
  "BFS scenario_store 2 0 = Some (2, scenario_searched) \<and>
   same_graph scenario_store scenario_searched \<and>
   BFS scenario_searched 2 0 = Some (2, scenario_searched) \<and>
   BFS scenario_searched 2 0 =
     BFS (scenario_searched\<lparr>headActors := clear_all (headActors scenario_searched)\<rparr>) 2 0 \<and>
   map_option fst (BFS scenario_searched 2 0) = map_option fst (BFS scenario_store 2 0)"
proof -
  have 1: "BFS scenario_store 2 0 = Some (2, scenario_searched)" by code_simp
  have 2: "(2::nat) \<noteq> 0" by simp
  note T = BFS_query_independent [of scenario_searched 2 0 scenario_searched 2 scenario_searched]
  note U = BFS_query_independent [of scenario_store 2 0 scenario_searched 2 scenario_searched]
  have 3: "same_graph scenario_store scenario_searched"
    and 4: "BFS scenario_searched 2 0 = Some (2, scenario_searched)"
    using U 1 by blast+
  have 5: "BFS scenario_searched 2 0 =
     BFS (scenario_searched\<lparr>headActors := clear_all (headActors scenario_searched)\<rparr>) 2 0"
    using T 2 by blast
  have 6: "map_option fst (BFS scenario_searched 2 0) = map_option fst (BFS scenario_store 2 0)"
    using U 3 by blast
  show ?thesis using 1 3 4 5 6 by (intro conjI)
qed

text \<open>
  C10. On the store the parser built, as any number of earlier searches left it, the search
  from any actor for any actor returns: the loop over the queue ends. Every round takes one
  actor from the queue and puts back only actors it has just marked visited, so the number
  of unvisited actors plus the length of the queue falls with every round.
\<close>

theorem BFS_terminates:
  assumes "parseFile dataset = Inr s0" and "same_graph s0 s"
    and "a < length (headActors s)" and "t < length (headActors s)"
  shows "\<exists>r s'. BFS s a t = Some (r, s')"
  using BFS_total [OF _ assms(3,4)] same_graph_inv [OF assms(1,2)] by blast

theorem BFS_terminates_witness:
  "\<exists>r s'. BFS scenario_searched 2 0 = Some (r, s')"
proof -
  have 1: "parseFile scenario_file = Inr scenario_store" by code_simp
  have 2: "same_graph scenario_store scenario_searched" by code_simp
  have 3: "2 < length (headActors scenario_searched)" by code_simp
  have 4: "0 < length (headActors scenario_searched)" by code_simp
  show ?thesis using BFS_terminates [OF 1 2 3 4] .
qed

end
